theory Spec2Isabelle
  imports Main "HOL-Library.Word" "HOL-Library.Char_ord" "HOL-Library.List_Lexorder"
begin

section \<open>The timer state machine (src/src/app.go, package focus)\<close>

text \<open>
  Go's \<open>int\<close> is a 64-bit machine integer on the supported platforms; the counters of
  the timer are modelled as 64-bit words, so that \<open>t.counter++\<close> wraps as it does in Go.
\<close>

type_synonym go_int = "64 word"

datatype sessionType = pomodoro | shortBreak | longBreak

record timer =
  currentSession :: sessionType
  kind :: "sessionType \<Rightarrow> go_int"
  autoStartPomodoro :: bool
  autoStartBreak :: bool
  longBreakInterval :: go_int
  maxPomodoros :: go_int
  counter :: go_int
  iteration :: go_int
  msg :: "sessionType \<Rightarrow> string"
  showNotification :: bool
  twentyFourHourClock :: bool

text \<open>\<open>nextSession\<close> retrieves the next session.\<close>

definition nextSession :: "timer \<Rightarrow> sessionType" where
  "nextSession t =
     (case currentSession t of
        pomodoro \<Rightarrow> (if iteration t = longBreakInterval t then longBreak else shortBreak)
      | shortBreak \<Rightarrow> pomodoro
      | longBreak \<Rightarrow> pomodoro)"

text \<open>
  The head of \<open>start\<close>, up to the countdown: the session becomes the current one, the
  counter is incremented for every session, whatever its type, and the iteration is
  advanced for a pomodoro only.
\<close>

definition begin_session :: "timer \<Rightarrow> sessionType \<Rightarrow> timer" where
  "begin_session t session =
     (let t1 = t\<lparr>currentSession := session, counter := counter t + 1\<rparr>
      in if session = pomodoro
         then (if iteration t1 = longBreakInterval t1
               then t1\<lparr>iteration := 1\<rparr>
               else t1\<lparr>iteration := iteration t1 + 1\<rparr>)
         else t1)"

text \<open>
  What \<open>printSession\<close> shows in the pomodoro banner \<open>[Pomodoro count/total]\<close>:
  the counter against \<open>maxPomodoros\<close> when a maximum is set, the iteration against
  the long break interval otherwise.
\<close>

definition pomodoro_banner :: "timer \<Rightarrow> go_int \<times> go_int" where
  "pomodoro_banner t =
     (if maxPomodoros t \<noteq> 0 then (counter t, maxPomodoros t)
      else (iteration t, longBreakInterval t))"

text \<open>
  One entry of the run's log per session started: its type, and the counter and the
  iteration it runs with.
\<close>

type_synonym session_entry = "sessionType \<times> go_int \<times> go_int"

text \<open>
  \<open>start\<close> begins a session, counts it down, and then either returns (the counter has
  reached \<open>maxPomodoros\<close>) or calls itself with the next session. The countdown ends
  when the wall clock passes the end time and changes no field of the timer; the prompt
  for ENTER between sessions changes none either. The recursion need not end (with
  \<open>maxPomodoros = 0\<close> it runs until the counter wraps), so the model takes fuel, one
  unit per session: the result holds the sessions started so far, and the timer at the
  return, or \<open>None\<close> when the fuel ran out with the machine still running.
\<close>

fun start :: "nat \<Rightarrow> timer \<Rightarrow> sessionType \<Rightarrow> session_entry list \<times> timer option" where
  "start 0 t session = ([], None)"
| "start (Suc fuel) t session =
     (let t' = begin_session t session;
          entry = (session, counter t', iteration t')
      in if counter t' = maxPomodoros t' then ([entry], Some t')
         else (case start fuel t' (nextSession t') of
                 (entries, r) \<Rightarrow> (entry # entries, r)))"

text \<open>A timer as \<open>newTimer\<close> leaves its counters: both zero.\<close>

definition fresh :: "timer \<Rightarrow> bool" where
  "fresh t \<longleftrightarrow> counter t = 0 \<and> iteration t = 0"

definition example_timer :: "go_int \<Rightarrow> go_int \<Rightarrow> timer" where
  "example_timer interval maxp =
     \<lparr>currentSession = pomodoro,
      kind = (\<lambda>s. case s of pomodoro \<Rightarrow> 25 | shortBreak \<Rightarrow> 5 | longBreak \<Rightarrow> 15),
      autoStartPomodoro = False,
      autoStartBreak = False,
      longBreakInterval = interval,
      maxPomodoros = maxp,
      counter = 0,
      iteration = 0,
      msg = (\<lambda>s. ''''),
      showNotification = True,
      twentyFourHourClock = False\<rparr>"

section \<open>Time stamps and the key encoding\<close>

text \<open>
  A \<open>time.Time\<close> is an instant together with a location. The model keeps the civil
  reading of the instant in its location (the fields \<open>time.Date\<close> takes and
  \<open>Time.Date\<close>, \<open>Time.Clock\<close> return) and the location's offset in seconds east
  of UTC; the instant is computed from them. The monotonic clock reading, which
  neither \<open>Format\<close> nor the JSON encoding keeps, is left out.
\<close>

type_synonym bytes = string

record time =
  year :: int
  month :: nat
  day :: nat
  hour :: nat
  minute :: nat
  second :: nat
  nsec :: nat
  offset :: int

definition leap :: "int \<Rightarrow> bool" where
  "leap y \<longleftrightarrow> y mod 4 = 0 \<and> (y mod 100 \<noteq> 0 \<or> y mod 400 = 0)"

text \<open>Days from January 1 of year 1 to January 1 of year \<open>y\<close> (proleptic Gregorian).\<close>

definition days_before_year :: "int \<Rightarrow> int" where
  "days_before_year y = 365 * (y - 1) + (y - 1) div 4 - (y - 1) div 100 + (y - 1) div 400"

text \<open>Go's table \<open>daysBefore\<close>: the days of a non-leap year before each month.\<close>

definition daysBefore :: "nat list" where
  "daysBefore = [0, 31, 59, 90, 120, 151, 181, 212, 243, 273, 304, 334, 365]"

definition days_before_month :: "int \<Rightarrow> nat \<Rightarrow> nat" where
  "days_before_month y m = daysBefore ! (m - 1) + (if leap y \<and> 2 < m then 1 else 0)"

definition days_in_month :: "int \<Rightarrow> nat \<Rightarrow> nat" where
  "days_in_month y m = daysBefore ! m - daysBefore ! (m - 1) + (if leap y \<and> m = 2 then 1 else 0)"

definition valid_time :: "time \<Rightarrow> bool" where
  "valid_time t \<longleftrightarrow>
     1 \<le> month t \<and> month t \<le> 12 \<and> 1 \<le> day t \<and> day t \<le> days_in_month (year t) (month t) \<and>
     hour t < 24 \<and> minute t < 60 \<and> second t < 60 \<and> nsec t < 1000000000"

text \<open>
  The instant, in seconds since January 1 of year 1, 00:00:00 UTC (Go's absolute
  seconds), without the nanoseconds.
\<close>

definition abs_seconds :: "time \<Rightarrow> int" where
  "abs_seconds t =
     (days_before_year (year t) + int (days_before_month (year t) (month t)) + int (day t) - 1) * 86400
     + int (hour t) * 3600 + int (minute t) * 60 + int (second t) - offset t"

text \<open>\<open>Time.Before\<close> and \<open>Time.After\<close> compare instants, to the nanosecond.\<close>

definition Before :: "time \<Rightarrow> time \<Rightarrow> bool" where
  "Before t u \<longleftrightarrow>
     abs_seconds t < abs_seconds u \<or> (abs_seconds t = abs_seconds u \<and> nsec t < nsec u)"

definition After :: "time \<Rightarrow> time \<Rightarrow> bool" where
  "After t u \<longleftrightarrow> Before u t"


subsection \<open>\<open>Format(time.RFC3339)\<close>\<close>

text \<open>
  The layout \<open>2006-01-02T15:04:05Z07:00\<close>, as the standard library formats it:
  \<open>appendInt\<close> writes a sign for a negative number and then the decimal digits,
  padded with zeros to the width; the zone is \<open>Z\<close> for offset 0, and otherwise the sign,
  hours and minutes of the offset, whose seconds are cut off. The nanoseconds are not
  written.
\<close>

definition utod :: "nat \<Rightarrow> char" where
  "utod n = char_of (48 + n)"

fun digits :: "nat \<Rightarrow> string" where
  "digits n = (if n < 10 then [utod n] else digits (n div 10) @ [utod (n mod 10)])"

declare digits.simps [simp del]

definition appendInt :: "int \<Rightarrow> nat \<Rightarrow> string" where
  "appendInt x width =
     (let ds = digits (nat \<bar>x\<bar>)
      in (if x < 0 then ''-'' else []) @ replicate (width - length ds) (CHR ''0'') @ ds)"

text \<open>Go's integer division truncates towards zero.\<close>

definition go_div :: "int \<Rightarrow> int \<Rightarrow> int" where
  "go_div a b = sgn a * sgn b * (\<bar>a\<bar> div \<bar>b\<bar>)"

definition format_zone :: "int \<Rightarrow> string" where
  "format_zone off =
     (if off = 0 then ''Z''
      else let zone = go_div off 60
           in (if zone < 0 then ''-'' else ''+'')
              @ appendInt (\<bar>zone\<bar> div 60) 2 @ '':'' @ appendInt (\<bar>zone\<bar> mod 60) 2)"

definition Format_RFC3339 :: "time \<Rightarrow> bytes" where
  "Format_RFC3339 t =
     appendInt (year t) 4 @ ''-'' @ appendInt (int (month t)) 2 @ ''-'' @ appendInt (int (day t)) 2
     @ ''T'' @ appendInt (int (hour t)) 2 @ '':'' @ appendInt (int (minute t)) 2
     @ '':'' @ appendInt (int (second t)) 2 @ format_zone (offset t)"

text \<open>
  Modelled from the spec: \<open>timeutil.ToKey\<close> is not among the sources. The spec has the
  session key as the start time "formatted as a timestamp string", and \<open>GetSessions\<close>
  of the same file seeks with \<open>Format(time.RFC3339)\<close> keys, so \<open>ToKey\<close> is that
  encoding.
\<close>

definition ToKey :: "time \<Rightarrow> bytes" where
  "ToKey t = Format_RFC3339 t"

subsection \<open>Readings of a time stamp used to compare keys\<close>

text \<open>The day count and the second of the day that make up the instant.\<close>

definition day_number :: "time \<Rightarrow> int" where
  "day_number t =
     days_before_year (year t) + int (days_before_month (year t) (month t)) + int (day t) - 1"

definition second_of_day :: "time \<Rightarrow> int" where
  "second_of_day t = int (hour t) * 3600 + int (minute t) * 60 + int (second t)"

text \<open>The civil fields a key shows, most significant first.\<close>

definition civil :: "time \<Rightarrow> int list" where
  "civil t = [year t, int (month t), int (day t), int (hour t), int (minute t), int (second t)]"

text \<open>Years that \<open>appendInt\<close> writes in exactly four digits.\<close>

definition key_year :: "time \<Rightarrow> bool" where
  "key_year t \<longleftrightarrow> 0 \<le> year t \<and> year t \<le> 9999"

text \<open>Zero-padded fields of two and four decimal digits.\<close>

definition pad2 :: "nat \<Rightarrow> string" where
  "pad2 n = [utod (n div 10), utod (n mod 10)]"

definition pad4 :: "nat \<Rightarrow> string" where
  "pad4 n = [utod (n div 1000), utod (n div 100 mod 10), utod (n div 10 mod 10), utod (n mod 10)]"

text \<open>A time stamp given by its civil fields, for the examples.\<close>

definition Date :: "int \<Rightarrow> nat \<Rightarrow> nat \<Rightarrow> nat \<Rightarrow> nat \<Rightarrow> nat \<Rightarrow> nat \<Rightarrow> int \<Rightarrow> time" where
  "Date y mo d h mi s ns off =
     \<lparr>year = y, month = mo, day = d, hour = h, minute = mi, second = s, nsec = ns, offset = off\<rparr>"

section \<open>The data store (src/store/store.go, src/src/internal/db.go)\<close>

subsection \<open>Errors and outcomes\<close>

datatype error =
    errFocusRunning
  | errNoPausedSession
  | ErrTimeout
  | ErrDatabaseOpen
  | ErrKeyRequired
  | MarshalerError
  | UnmarshalError
  | OSError string

text \<open>
  A call returns, panics (a nil pointer is dereferenced), or never returns. A Go result
  \<open>(x, err)\<close> is a pair whose second component is \<open>None\<close> for a nil error.
\<close>

datatype 'a outcome = Returns 'a | Panics | Hangs

subsection \<open>Sessions and the timer snapshot\<close>

text \<open>
  Modelled from the spec: the session types (\<open>models.Session\<close>, \<open>session.Session\<close>)
  are not among the sources. The fields are those of the spec's data model; the code
  under \<open>src/\<close> reads \<open>StartTime\<close>, \<open>EndTime\<close>, \<open>Tags\<close> and \<open>Completed\<close>.
\<close>

datatype session_kind = Work | ShortBreak | LongBreak

record session =
  StartTime :: time
  EndTime :: time
  Kind :: session_kind
  Tags :: "string list"
  Completed :: bool


text \<open>
  Modelled from the spec: \<open>config.TimerConfig\<close> is not among the sources. The settings
  are those the spec lists; \<open>Stdout\<close>, \<open>Stderr\<close> and \<open>Stdin\<close> are the three fields
  \<open>GetInterrupted\<close> sets, which hold streams of the process and are no part of the
  stored JSON.
\<close>

datatype stream = os_Stdout | os_Stderr | os_Stdin | no_stream | other_stream nat

record TimerConfig =
  Stdout :: stream
  Stderr :: stream
  Stdin :: stream
  WorkMinutes :: go_int
  ShortBreakMinutes :: go_int
  LongBreakMinutes :: go_int
  LongBreakInterval :: go_int
  MaxSessions :: go_int
  AutoStartBreak :: bool
  AutoStartWork :: bool
  Notify :: bool
  TwentyFourHour :: bool
  WorkMessage :: string
  ShortBreakMessage :: string
  LongBreakMessage :: string

text \<open>\<open>Opts\<close> is a pointer, which may be nil.\<close>

record timerState =
  Opts :: "TimerConfig option"
  WorkCycle :: go_int

subsection \<open>Stored values and \<open>encoding/json\<close>\<close>

text \<open>
  A stored byte string is represented by what \<open>json.Unmarshal\<close> makes of it at the type
  it is read at: \<open>Doc x\<close> is a JSON text that decodes to \<open>x\<close>, and \<open>Garbage b\<close> is a
  byte string \<open>b\<close> that does not decode. A JSON text is never empty, so only
  \<open>Garbage []\<close> has length 0.
\<close>

datatype 'a stored = Doc 'a | Garbage bytes

text \<open>
  \<open>json.Marshal\<close> writes a time stamp with \<open>Time.MarshalJSON\<close> of the standard
  library, in the layout \<open>RFC3339Nano\<close>. It returns an error for a year outside
  0..9999 and (from Go 1.20 on) for a zone offset of 24 hours or more. The text has the
  civil fields with the nanoseconds and the zone in hours and minutes, so the time stamp
  that \<open>Time.UnmarshalJSON\<close> reads back has the offset cut to whole minutes.
\<close>

definition MarshalJSON_ok :: "time \<Rightarrow> bool" where
  "MarshalJSON_ok t \<longleftrightarrow>
     0 \<le> year t \<and> year t \<le> 9999 \<and> \<bar>go_div (offset t) 60\<bar> div 60 < 24"

definition json_time :: "time \<Rightarrow> time" where
  "json_time t = t\<lparr>offset := go_div (offset t) 60 * 60\<rparr>"

text \<open>
  \<open>json.Marshal\<close> writes a string coerced to valid UTF-8: a byte at which no encoding
  of a code point begins (\<open>utf8.DecodeRuneInString\<close> returns \<open>RuneError\<close> and the
  size 1) is replaced by the replacement character U+FFFD, whose encoding is the bytes
  EF BF BD. \<open>rune_len\<close> is the size of the encoding at the head of a string, 0 if there
  is none.
\<close>

definition byte_of :: "char \<Rightarrow> nat" where
  "byte_of c = of_char c"

definition is_cont :: "char \<Rightarrow> bool" where
  "is_cont c \<longleftrightarrow> 128 \<le> byte_of c \<and> byte_of c \<le> 191"

fun rune_len :: "string \<Rightarrow> nat" where
  "rune_len [] = 0"
| "rune_len (a # r) =
     (let x = byte_of a
      in if x < 128 then 1
         else if 194 \<le> x \<and> x \<le> 223 then
           (case r of b # r1 \<Rightarrow> if is_cont b then 2 else 0 | [] \<Rightarrow> 0)
         else if 224 \<le> x \<and> x \<le> 239 then
           (case r of
              b # c # r2 \<Rightarrow>
                if (if x = 224 then 160 else 128) \<le> byte_of b
                   \<and> byte_of b \<le> (if x = 237 then 159 else 191) \<and> is_cont c
                then 3 else 0
            | _ \<Rightarrow> 0)
         else if 240 \<le> x \<and> x \<le> 244 then
           (case r of
              b # c # d # r3 \<Rightarrow>
                if (if x = 240 then 144 else 128) \<le> byte_of b
                   \<and> byte_of b \<le> (if x = 244 then 143 else 191) \<and> is_cont c \<and> is_cont d
                then 4 else 0
            | _ \<Rightarrow> 0)
         else 0)"

definition replacement :: string where
  "replacement = [char_of (239 :: nat), char_of (191 :: nat), char_of (189 :: nat)]"

function json_string :: "string \<Rightarrow> string" where
  "json_string s =
     (if s = [] then []
      else if rune_len s = 0 then replacement @ json_string (tl s)
      else take (rune_len s) s @ json_string (drop (rune_len s) s))"
  by pat_completeness auto
termination
  by (relation "measure length") (auto simp: neq_Nil_conv)

declare json_string.simps [simp del]

text \<open>
  The session that \<open>json.Unmarshal\<close> reads from the text \<open>json.Marshal\<close> writes for a
  session, and \<open>json.Marshal\<close> at a session: it returns the error of
  \<open>Time.MarshalJSON\<close> and no text when a time stamp of the session cannot be written.
\<close>

definition json_session :: "session \<Rightarrow> session" where
  "json_session s =
     s\<lparr>StartTime := json_time (StartTime s), EndTime := json_time (EndTime s),
       Tags := map json_string (Tags s)\<rparr>"

definition json_Marshal :: "session \<Rightarrow> error + session stored" where
  "json_Marshal s =
     (if MarshalJSON_ok (StartTime s) \<and> MarshalJSON_ok (EndTime s) then Inr (Doc (json_session s))
      else Inl MarshalerError)"

definition json_Unmarshal :: "'a stored \<Rightarrow> error + 'a" where
  "json_Unmarshal v = (case v of Doc x \<Rightarrow> Inr x | Garbage b \<Rightarrow> Inl UnmarshalError)"


text \<open>The streams of a configuration are not written to the JSON text.\<close>

definition strip_streams :: "TimerConfig \<Rightarrow> TimerConfig" where
  "strip_streams c = c\<lparr>Stdout := no_stream, Stderr := no_stream, Stdin := no_stream\<rparr>"



subsection \<open>Buckets, cursors and transactions of bbolt\<close>

text \<open>
  A bucket holds its pairs in the byte order of their keys, each key once. The
  operations follow bbolt's documentation: \<open>Put\<close> refuses an empty key and replaces the
  value of a key that exists, \<open>Get\<close> returns nil for a key that does not exist. The
  limits on the size of keys and values and the failures of the disk are outside the
  model.
\<close>

type_synonym 'v bucket = "(bytes \<times> 'v) list"

definition bucket_ok :: "'v bucket \<Rightarrow> bool" where
  "bucket_ok b \<longleftrightarrow> sorted_wrt (<) (map fst b)"

fun insert_pair :: "bytes \<Rightarrow> 'v \<Rightarrow> 'v bucket \<Rightarrow> 'v bucket" where
  "insert_pair k v [] = [(k, v)]"
| "insert_pair k v ((k', v') # b) =
     (if k < k' then (k, v) # (k', v') # b
      else if k = k' then (k, v) # b
      else (k', v') # insert_pair k v b)"

definition Put :: "'v bucket \<Rightarrow> bytes \<Rightarrow> 'v \<Rightarrow> error + 'v bucket" where
  "Put b k v = (if k = [] then Inl ErrKeyRequired else Inr (insert_pair k v b))"

definition Get :: "'v bucket \<Rightarrow> bytes \<Rightarrow> 'v option" where
  "Get b k = map_of b k"

text \<open>
  A cursor is a position in the bucket's pairs, from 0 to their number (past the
  last pair). \<open>Seek\<close> moves to the first key not below the one sought and returns it, or
  nil if no key follows; \<open>Prev\<close> and \<open>Next\<close> move one pair and return it, or return
  nil at the beginning and at the end of the bucket, where the cursor stays.
\<close>

record 'v cursor =
  pairs :: "'v bucket"
  pos :: nat

definition Cursor :: "'v bucket \<Rightarrow> 'v cursor" where
  "Cursor b = \<lparr>pairs = b, pos = 0\<rparr>"

definition Seek :: "'v cursor \<Rightarrow> bytes \<Rightarrow> 'v cursor \<times> (bytes \<times> 'v) option" where
  "Seek c seek =
     (let i = length (takeWhile (\<lambda>kv. fst kv < seek) (pairs c))
      in (c\<lparr>pos := i\<rparr>, if i < length (pairs c) then Some (pairs c ! i) else None))"

definition Prev :: "'v cursor \<Rightarrow> 'v cursor \<times> (bytes \<times> 'v) option" where
  "Prev c =
     (if 0 < pos c then (c\<lparr>pos := pos c - 1\<rparr>, Some (pairs c ! (pos c - 1)))
      else (c, None))"

definition Next :: "'v cursor \<Rightarrow> 'v cursor \<times> (bytes \<times> 'v) option" where
  "Next c =
     (if Suc (pos c) < length (pairs c) then (c\<lparr>pos := Suc (pos c)\<rparr>, Some (pairs c ! Suc (pos c)))
      else (c, None))"

text \<open>
  The buckets of a database file. A bucket that was never created is \<open>None\<close>, and
  \<open>tx.Bucket\<close> returns nil for it. The bucket \<open>timer\<close> is restricted to the two keys
  the code uses: the snapshot under \<open>timer\<close> and the raw session key under
  \<open>interrrupted_session_key\<close>.
\<close>

record timer_slots =
  timer_slot :: "timerState stored option"
  key_slot :: "bytes option"

record DB =
  sessions_bucket :: "session stored bucket option"
  timer_bucket :: "timer_slots option"
  focus_bucket :: "bytes bucket option"

text \<open>
  \<open>db.Update\<close> runs the function in a read-write transaction: it commits when the
  function returns nil and rolls back when it returns an error. \<open>db.View\<close> runs it in a
  read-only transaction.
\<close>

definition Update :: "DB \<Rightarrow> (DB \<Rightarrow> (DB \<times> error option) outcome) \<Rightarrow> (DB \<times> error option) outcome" where
  "Update db f =
     (case f db of
        Returns (db', None) \<Rightarrow> Returns (db', None)
      | Returns (db', Some e) \<Rightarrow> Returns (db, Some e)
      | Panics \<Rightarrow> Panics
      | Hangs \<Rightarrow> Hangs)"

subsection \<open>Writing sessions\<close>

text \<open>\<open>UpdateSession\<close> of the first \<open>store.go\<close>.\<close>

definition UpdateSession :: "DB \<Rightarrow> session \<Rightarrow> (DB \<times> error option) outcome" where
  "UpdateSession c sess =
     (let key = Format_RFC3339 (StartTime sess)
      in case json_Marshal sess of
           Inl err \<Rightarrow> Returns (c, Some err)
         | Inr value \<Rightarrow>
             Update c (\<lambda>tx.
               case sessions_bucket tx of
                 None \<Rightarrow> Panics
               | Some b \<Rightarrow>
                   (case Put b key value of
                      Inl err \<Rightarrow> Returns (tx, Some err)
                    | Inr b' \<Rightarrow> Returns (tx\<lparr>sessions_bucket := Some b'\<rparr>, None))))"

text \<open>
  \<open>UpdateSessions\<close> of the second \<open>store.go\<close>. The map is given as the list of its
  entries in the order the \<open>range\<close> statement visits them, which Go leaves unspecified.
  The body of the loop returns in its first round.
\<close>

fun UpdateSessions :: "DB \<Rightarrow> (time \<times> session) list \<Rightarrow> (DB \<times> error option) outcome" where
  "UpdateSessions c [] = Returns (c, None)"
| "UpdateSessions c ((k, v) # rest) =
     (let key = ToKey k
      in case json_Marshal v of
           Inl err \<Rightarrow> Returns (c, Some err)
         | Inr b \<Rightarrow>
             Update c (\<lambda>tx.
               case sessions_bucket tx of
                 None \<Rightarrow> Panics
               | Some bkt \<Rightarrow>
                   (case Put bkt key b of
                      Inl err \<Rightarrow> Returns (tx, Some err)
                    | Inr bkt' \<Rightarrow> Returns (tx\<lparr>sessions_bucket := Some bkt'\<rparr>, None))))"

text \<open>\<open>updateSession\<close> of \<open>db.go\<close>: the caller supplies key and value.\<close>

definition updateSession :: "DB \<Rightarrow> bytes \<Rightarrow> session stored \<Rightarrow> (DB \<times> error option) outcome" where
  "updateSession s key value =
     Update s (\<lambda>tx.
       case sessions_bucket tx of
         None \<Rightarrow> Panics
       | Some b \<Rightarrow>
           (case Put b key value of
              Inl err \<Rightarrow> Returns (tx, Some err)
            | Inr b' \<Rightarrow> Returns (tx\<lparr>sessions_bucket := Some b'\<rparr>, None)))"

text \<open>A sequence of \<open>UpdateSession\<close> calls, stopping at the first that does not succeed.\<close>

fun put_all :: "DB \<Rightarrow> session list \<Rightarrow> (DB \<times> error option) outcome" where
  "put_all c [] = Returns (c, None)"
| "put_all c (s # ss) =
     (case UpdateSession c s of
        Returns (c', None) \<Rightarrow> put_all c' ss
      | r \<Rightarrow> r)"

text \<open>
  The same sequence in the second \<open>store.go\<close>: one \<open>UpdateSessions\<close> call for every
  session, with the map that holds the session under its start time.
\<close>

fun put_all_v2 :: "DB \<Rightarrow> session list \<Rightarrow> (DB \<times> error option) outcome" where
  "put_all_v2 c [] = Returns (c, None)"
| "put_all_v2 c (s # ss) =
     (case UpdateSessions c [(StartTime s, s)] of
        Returns (c', None) \<Rightarrow> put_all_v2 c' ss
      | r \<Rightarrow> r)"

text \<open>
  A session that the store holds as it was written: \<open>json.Marshal\<close> succeeds, the zone
  offsets of the time stamps are whole minutes, and the tags are valid UTF-8.
\<close>

definition stored_exactly :: "session \<Rightarrow> bool" where
  "stored_exactly s \<longleftrightarrow>
     MarshalJSON_ok (StartTime s) \<and> MarshalJSON_ok (EndTime s)
     \<and> 60 dvd offset (StartTime s) \<and> 60 dvd offset (EndTime s)
     \<and> list_all (\<lambda>t. json_string t = t) (Tags s)"

text \<open>A database as \<open>NewClient\<close> leaves a new file: the buckets exist and are empty.\<close>

definition empty_DB :: DB where
  "empty_DB =
     \<lparr>sessions_bucket = Some [],
      timer_bucket = Some \<lparr>timer_slot = None, key_slot = None\<rparr>,
      focus_bucket = Some []\<rparr>"

subsection \<open>The interrupted timer (first \<open>store.go\<close>)\<close>



text \<open>
  The results of \<open>GetInterrupted\<close> are named: what the function has assigned when it
  returns is what the caller receives, also beside an error.
\<close>

record interrupted =
  opts :: "TimerConfig option"
  sess :: "session option"
  workCycle :: go_int
  err :: "error option"




subsection \<open>Reading sessions\<close>

text \<open>
  The inner loop of the tag filter: the session is appended once for every tag of its
  own that the filter contains.
\<close>

definition append_per_tag :: "string list \<Rightarrow> string list \<Rightarrow> 'a \<Rightarrow> 'a list \<Rightarrow> 'a list" where
  "append_per_tag tags ts x result =
     fold (\<lambda>t r. if t \<in> set tags then r @ [x] else r) ts result"

text \<open>
  The \<open>for\<close> loop of \<open>GetSessions\<close> in the second \<open>store.go\<close>, from the pair the
  cursor is at: every pair is decoded, and the loop returns the decoding error of a
  pair beside what it has collected.
\<close>

function scan ::
  "session stored cursor \<Rightarrow> (bytes \<times> session stored) option \<Rightarrow> bytes \<Rightarrow> string list \<Rightarrow>
     session list \<Rightarrow> session list \<times> error option" where
  "scan c None mx tags result = (result, None)"
| "scan c (Some (k, v)) mx tags result =
     (if k \<le> mx then
        (case json_Unmarshal v of
           Inl e \<Rightarrow> (result, Some e)
         | Inr s \<Rightarrow>
             (let result' = (if tags \<noteq> [] then append_per_tag tags (Tags s) s result
                             else result @ [s])
              in scan (fst (Next c)) (snd (Next c)) mx tags result'))
      else (result, None))"
  by pat_completeness auto
termination
  by (relation "measure (\<lambda>(c, kv, mx, tags, result).
        case kv of None \<Rightarrow> 0 | Some x \<Rightarrow> Suc (length (pairs c) - pos c))")
     (auto simp: Next_def split: option.splits)

text \<open>\<open>GetSessions\<close> of the second \<open>store.go\<close>.\<close>

definition GetSessions ::
  "DB \<Rightarrow> time \<Rightarrow> time \<Rightarrow> string list \<Rightarrow> (session list \<times> error option) outcome" where
  "GetSessions db since until tags =
     (case sessions_bucket db of
        None \<Rightarrow> Panics
      | Some b \<Rightarrow>
          (let c0 = Cursor b;
               mn = Format_RFC3339 since;
               mx = Format_RFC3339 until;
               c1 = fst (Seek c0 mn);
               c2 = fst (Prev c1)
           in case snd (Prev c1) of
                Some (pk, pv) \<Rightarrow>
                  (case json_Unmarshal pv of
                     Inl e \<Rightarrow> Returns ([], Some e)
                   | Inr s \<Rightarrow>
                       if After (EndTime s) since then Returns (scan c2 (Some (pk, pv)) mx tags [])
                       else Returns (scan (fst (Next c2)) (snd (Next c2)) mx tags []))
              | None \<Rightarrow> Returns (scan (fst (Seek c2 mn)) (snd (Seek c2 mn)) mx tags [])))"

text \<open>
  The \<open>for\<close> loop of \<open>GetSessions\<close> in the first \<open>store.go\<close>: it collects the stored
  values, and decodes a value only to filter by tags.
\<close>

function scan_v1 ::
  "session stored cursor \<Rightarrow> (bytes \<times> session stored) option \<Rightarrow> bytes \<Rightarrow> string list \<Rightarrow>
     session stored list \<Rightarrow> session stored list \<times> error option" where
  "scan_v1 c None mx tags b = (b, None)"
| "scan_v1 c (Some (k, v)) mx tags b =
     (if k \<le> mx then
        (if tags \<noteq> [] then
           (case json_Unmarshal v of
              Inl e \<Rightarrow> (b, Some e)
            | Inr s \<Rightarrow> scan_v1 (fst (Next c)) (snd (Next c)) mx tags (append_per_tag tags (Tags s) v b))
         else scan_v1 (fst (Next c)) (snd (Next c)) mx tags (b @ [v]))
      else (b, None))"
  by pat_completeness auto
termination
  by (relation "measure (\<lambda>(c, kv, mx, tags, b).
        case kv of None \<Rightarrow> 0 | Some x \<Rightarrow> Suc (length (pairs c) - pos c))")
     (auto simp: Next_def split: option.splits)

text \<open>
  The second loop of that function decodes the collected values. It assigns the error
  variable of the transaction in every round, and returns at the first value that does
  not decode.
\<close>

fun decode_all ::
  "session stored list \<Rightarrow> session list \<Rightarrow> error option \<Rightarrow> session list \<times> error option" where
  "decode_all [] s e = (s, e)"
| "decode_all (v # vs) s e =
     (case json_Unmarshal v of
        Inl e' \<Rightarrow> ([], Some e')
      | Inr x \<Rightarrow> decode_all vs (s @ [x]) None)"

definition GetSessions_v1 ::
  "DB \<Rightarrow> time \<Rightarrow> time \<Rightarrow> string list \<Rightarrow> (session list \<times> error option) outcome" where
  "GetSessions_v1 db startTime endTime tags =
     (case sessions_bucket db of
        None \<Rightarrow> Panics
      | Some bkt \<Rightarrow>
          (let c0 = Cursor bkt;
               mn = Format_RFC3339 startTime;
               mx = Format_RFC3339 endTime;
               c1 = fst (Seek c0 mn);
               c2 = fst (Prev c1);
               (b, e) =
                 (case snd (Prev c1) of
                    Some (pk, pv) \<Rightarrow>
                      (case json_Unmarshal pv of
                         Inl e \<Rightarrow> ([], Some e)
                       | Inr s \<Rightarrow>
                           if After (EndTime s) startTime then scan_v1 c2 (Some (pk, pv)) mx tags []
                           else scan_v1 (fst (Next c2)) (snd (Next c2)) mx tags [])
                  | None \<Rightarrow> scan_v1 (fst (Seek c2 mn)) (snd (Seek c2 mn)) mx tags [])
           in Returns (decode_all b [] e)))"

text \<open>
  \<open>getSessions\<close> of \<open>db.go\<close>: the values from the first key not below the start of the
  period, while the key is not above its end.
\<close>

function scan_values ::
  "'v cursor \<Rightarrow> (bytes \<times> 'v) option \<Rightarrow> bytes \<Rightarrow> 'v list \<Rightarrow> 'v list" where
  "scan_values c None mx b = b"
| "scan_values c (Some (k, v)) mx b =
     (if k \<le> mx then scan_values (fst (Next c)) (snd (Next c)) mx (b @ [v]) else b)"
  by pat_completeness auto
termination
  by (relation "measure (\<lambda>(c, kv, mx, b).
        case kv of None \<Rightarrow> 0 | Some x \<Rightarrow> Suc (length (pairs c) - pos c))")
     (auto simp: Next_def split: option.splits)

definition getSessions ::
  "DB \<Rightarrow> time \<Rightarrow> time \<Rightarrow> (session stored list \<times> error option) outcome" where
  "getSessions s startTime endTime =
     (case sessions_bucket s of
        None \<Rightarrow> Panics
      | Some bkt \<Rightarrow>
          (let c = Cursor bkt;
               mn = Format_RFC3339 startTime;
               mx = Format_RFC3339 endTime
           in Returns (scan_values (fst (Seek c mn)) (snd (Seek c mn)) mx [], None)))"

text \<open>A configuration with the standard streams of the process.\<close>

definition std_streams :: "TimerConfig \<Rightarrow> TimerConfig" where
  "std_streams c = c\<lparr>Stdout := os_Stdout, Stderr := os_Stderr, Stdin := os_Stdin\<rparr>"


definition example_session :: "time \<Rightarrow> time \<Rightarrow> string list \<Rightarrow> session" where
  "example_session s e ts =
     \<lparr>StartTime = s, EndTime = e, Kind = Work, Tags = ts, Completed = True\<rparr>"

subsection \<open>Opening the database\<close>

text \<open>
  \<open>bolt.Open\<close>, from bbolt's documentation: it takes a lock on the file, and
  \<open>Options.Timeout\<close> "is the amount of time to wait to obtain a file lock; when set to
  zero it will wait indefinitely". The state of a path says whether another handle holds
  the lock for as long as the caller waits, and what opening the file yields once the
  lock is obtained: the database, or the error of the operating system or of bbolt.
  With a lock that is held, the call waits for the time of \<open>Timeout\<close> and returns
  \<open>ErrTimeout\<close> when a timeout is set, and does not return otherwise. A lock that is
  free is obtained without a wait.

  Time is a part of the result: a call that opens the file returns the pair of its Go
  result and the nanoseconds it has waited for the lock.
\<close>

record file_state =
  locked :: bool
  on_open :: "error + DB"

record Options =
  Timeout :: nat

definition Second :: nat where
  "Second = 1000000000"

type_synonym 'a waited = "'a \<times> nat"

definition bolt_Open ::
  "(string \<Rightarrow> file_state) \<Rightarrow> string \<Rightarrow> nat \<Rightarrow> Options \<Rightarrow>
     (DB option \<times> error option) waited outcome" where
  "bolt_Open fs path mode options =
     (if locked (fs path) then
        (if Timeout options = 0 then Hangs
         else Returns ((None, Some ErrTimeout), Timeout options))
      else (case on_open (fs path) of
              Inl e \<Rightarrow> Returns ((None, Some e), 0)
            | Inr db \<Rightarrow> Returns ((Some db, None), 0)))"

definition fileMode :: nat where
  "fileMode = 384"

text \<open>\<open>errors.Is\<close> on the sentinel errors of the model.\<close>

definition errors_Is :: "error option \<Rightarrow> error \<Rightarrow> bool" where
  "errors_Is e target \<longleftrightarrow> e = Some target"

text \<open>\<open>openDB\<close> of the first \<open>store.go\<close>.\<close>

definition openDB_v1 ::
  "(string \<Rightarrow> file_state) \<Rightarrow> string \<Rightarrow> (DB option \<times> error option) waited outcome" where
  "openDB_v1 fs pathToDB =
     (case bolt_Open fs pathToDB fileMode \<lparr>Timeout = 1 * Second\<rparr> of
        Returns ((db, e), w) \<Rightarrow>
          if e \<noteq> None then
            (if errors_Is e ErrDatabaseOpen \<or> errors_Is e ErrTimeout
             then Returns ((None, Some errFocusRunning), w)
             else Returns ((None, e), w))
          else Returns ((db, None), w)
      | Panics \<Rightarrow> Panics
      | Hangs \<Rightarrow> Hangs)"

text \<open>\<open>openDB\<close> of the second \<open>store.go\<close>.\<close>

definition openDB ::
  "(string \<Rightarrow> file_state) \<Rightarrow> string \<Rightarrow> (DB option \<times> error option) waited outcome" where
  "openDB fs dbFilePath =
     (case bolt_Open fs dbFilePath fileMode \<lparr>Timeout = 1 * Second\<rparr> of
        Returns ((db, e), w) \<Rightarrow>
          if e \<noteq> None \<and> errors_Is e ErrTimeout then Returns ((None, Some errFocusRunning), w)
          else Returns ((db, None), w)
      | Panics \<Rightarrow> Panics
      | Hangs \<Rightarrow> Hangs)"

text \<open>\<open>tx.CreateBucketIfNotExists\<close> for the three buckets.\<close>

definition create_sessions :: "DB \<Rightarrow> DB" where
  "create_sessions tx =
     (case sessions_bucket tx of None \<Rightarrow> tx\<lparr>sessions_bucket := Some []\<rparr> | Some b \<Rightarrow> tx)"

definition create_timer :: "DB \<Rightarrow> DB" where
  "create_timer tx =
     (case timer_bucket tx of
        None \<Rightarrow> tx\<lparr>timer_bucket := Some \<lparr>timer_slot = None, key_slot = None\<rparr>\<rparr>
      | Some b \<Rightarrow> tx)"

definition create_focus :: "DB \<Rightarrow> DB" where
  "create_focus tx =
     (case focus_bucket tx of None \<Rightarrow> tx\<lparr>focus_bucket := Some []\<rparr> | Some b \<Rightarrow> tx)"

text \<open>
  \<open>db.Update\<close> on the handle \<open>openDB\<close> returned: a nil handle is dereferenced, which
  panics.
\<close>

definition Update_handle ::
  "DB option \<Rightarrow> (DB \<Rightarrow> (DB \<times> error option) outcome) \<Rightarrow> (DB \<times> error option) outcome" where
  "Update_handle h f = (case h of None \<Rightarrow> Panics | Some db \<Rightarrow> Update db f)"

text \<open>
  \<open>NewClient\<close> of the first \<open>store.go\<close>. The only wait of \<open>NewClient\<close> is the
  one of \<open>openDB\<close>.
\<close>

definition NewClient_v1 ::
  "(string \<Rightarrow> file_state) \<Rightarrow> string \<Rightarrow> (DB option \<times> error option) waited outcome" where
  "NewClient_v1 fs dbPath =
     (case openDB_v1 fs dbPath of
        Panics \<Rightarrow> Panics
      | Hangs \<Rightarrow> Hangs
      | Returns ((db, e), w) \<Rightarrow>
          if e \<noteq> None then Returns ((None, e), w)
          else
            (case Update_handle db (\<lambda>tx. Returns (create_timer (create_sessions tx), None)) of
               Panics \<Rightarrow> Panics
             | Hangs \<Rightarrow> Hangs
             | Returns (db', e') \<Rightarrow>
                 if e' \<noteq> None then Returns ((None, e'), w) else Returns ((Some db', None), w)))"

text \<open>
  \<open>NewClient\<close> of the second \<open>store.go\<close>. The migration \<open>migrateV1_4_0\<close> and the
  constant \<open>config.Version\<close> are not among the sources and are parameters; the
  migration maps the transaction to its result and an error.
\<close>

definition version_of :: "DB \<Rightarrow> bytes" where
  "version_of tx =
     (case focus_bucket tx of
        None \<Rightarrow> []
      | Some b \<Rightarrow> (case Get b ''version'' of None \<Rightarrow> [] | Some v \<Rightarrow> v))"

definition store_version :: "bytes \<Rightarrow> DB \<Rightarrow> (DB \<times> error option) outcome" where
  "store_version v tx =
     (case focus_bucket tx of
        None \<Rightarrow> Panics
      | Some b \<Rightarrow>
          (case Put b ''version'' v of
             Inl e \<Rightarrow> Returns (tx, Some e)
           | Inr b' \<Rightarrow> Returns (tx\<lparr>focus_bucket := Some b'\<rparr>, None)))"

definition NewClient ::
  "(DB \<Rightarrow> DB \<times> error option) \<Rightarrow> bytes \<Rightarrow> (string \<Rightarrow> file_state) \<Rightarrow> string \<Rightarrow>
     (DB option \<times> error option) waited outcome" where
  "NewClient migrateV1_4_0 Version fs dbFilePath =
     (case openDB fs dbFilePath of
        Panics \<Rightarrow> Panics
      | Hangs \<Rightarrow> Hangs
      | Returns ((db, e), w) \<Rightarrow>
          if e \<noteq> None then Returns ((None, e), w)
          else
            (case Update_handle db (\<lambda>tx. Returns (create_focus (create_sessions tx), None)) of
               Panics \<Rightarrow> Panics
             | Hangs \<Rightarrow> Hangs
             | Returns (db1, e1) \<Rightarrow>
                 if e1 \<noteq> None then Returns ((None, e1), w)
                 else
                   (case Update db1 (\<lambda>tx.
                           case focus_bucket tx of
                             None \<Rightarrow> Panics
                           | Some bkt \<Rightarrow>
                               (let version = version_of tx;
                                    (tx1, e) = (if version = [] then migrateV1_4_0 tx else (tx, None))
                                in if e \<noteq> None then Returns (tx1, e)
                                   else if version \<noteq> Version then store_version Version tx1
                                   else Returns (tx1, None))) of
                      Panics \<Rightarrow> Panics
                    | Hangs \<Rightarrow> Hangs
                    | Returns (db2, e2) \<Rightarrow> Returns ((Some db2, e2), w))))"

text \<open>\<open>Open\<close> of the second \<open>store.go\<close>: the client becomes the handle \<open>openDB\<close> returns.\<close>

definition Open ::
  "(string \<Rightarrow> file_state) \<Rightarrow> string \<Rightarrow> DB option \<Rightarrow> (DB option \<times> error option) waited outcome" where
  "Open fs path c =
     (case openDB fs path of
        Panics \<Rightarrow> Panics
      | Hangs \<Rightarrow> Hangs
      | Returns ((db, e), w) \<Rightarrow> if e \<noteq> None then Returns ((c, e), w) else Returns ((db, None), w))"

text \<open>Example states of a path: a lock held by another process, and a failing disk.\<close>

definition held_path :: "string \<Rightarrow> file_state" where
  "held_path p = \<lparr>locked = True, on_open = Inr empty_DB\<rparr>"

definition broken_path :: "string \<Rightarrow> file_state" where
  "broken_path p = \<lparr>locked = False, on_open = Inl (OSError ''input/output error'')\<rparr>"

subsection \<open>What a range query returns, stated on the pairs of the bucket\<close>

text \<open>
  The loops of \<open>GetSessions\<close> as recursions over the pairs from the cursor on, and the
  parts of the bucket a query is about; the properties of the code are stated against
  them.
\<close>

fun scan_pairs ::
  "bytes \<Rightarrow> string list \<Rightarrow> session stored bucket \<Rightarrow> session list \<Rightarrow> session list \<times> error option" where
  "scan_pairs mx tags [] result = (result, None)"
| "scan_pairs mx tags (kv # rest) result =
     (if fst kv \<le> mx then
        (case json_Unmarshal (snd kv) of
           Inl e \<Rightarrow> (result, Some e)
         | Inr s \<Rightarrow>
             scan_pairs mx tags rest
               (if tags \<noteq> [] then append_per_tag tags (Tags s) s result else result @ [s]))
      else (result, None))"

fun scan_pairs_v1 ::
  "bytes \<Rightarrow> string list \<Rightarrow> session stored bucket \<Rightarrow> session stored list \<Rightarrow>
     session stored list \<times> error option" where
  "scan_pairs_v1 mx tags [] b = (b, None)"
| "scan_pairs_v1 mx tags (kv # rest) b =
     (if fst kv \<le> mx then
        (if tags \<noteq> [] then
           (case json_Unmarshal (snd kv) of
              Inl e \<Rightarrow> (b, Some e)
            | Inr s \<Rightarrow> scan_pairs_v1 mx tags rest (append_per_tag tags (Tags s) (snd kv) b))
         else scan_pairs_v1 mx tags rest (b @ [snd kv]))
      else (b, None))"

text \<open>The pair the cursor of a bucket is at, nil past the last pair.\<close>

definition pair_at :: "'v bucket \<Rightarrow> nat \<Rightarrow> (bytes \<times> 'v) option" where
  "pair_at b i = (if i < length b then Some (b ! i) else None)"

text \<open>Every value of the bucket decodes.\<close>

definition all_docs :: "'a stored bucket \<Rightarrow> bool" where
  "all_docs b \<longleftrightarrow> list_all (\<lambda>kv. case snd kv of Doc x \<Rightarrow> True | Garbage g \<Rightarrow> False) b"

text \<open>The decoded values of a list of pairs, in its order.\<close>

definition docs :: "'a stored bucket \<Rightarrow> 'a list" where
  "docs b = List.map_filter (\<lambda>kv. case snd kv of Doc x \<Rightarrow> Some x | Garbage g \<Rightarrow> None) b"

text \<open>The pairs with a key in the closed interval, and the pairs with a key below it.\<close>

definition in_range :: "bytes \<Rightarrow> bytes \<Rightarrow> 'v bucket \<Rightarrow> 'v bucket" where
  "in_range mn mx b = filter (\<lambda>kv. mn \<le> fst kv \<and> fst kv \<le> mx) b"

definition below :: "bytes \<Rightarrow> 'v bucket \<Rightarrow> 'v bucket" where
  "below mn b = filter (\<lambda>kv. fst kv < mn) b"

text \<open>
  The pair with the greatest key below the key of \<open>since\<close>, if there is one and its
  session ended after \<open>since\<close>.
\<close>

definition edge_pair :: "time \<Rightarrow> session stored bucket \<Rightarrow> session stored bucket" where
  "edge_pair since b =
     (case rev (below (Format_RFC3339 since) b) of
        [] \<Rightarrow> []
      | kv # earlier \<Rightarrow>
          (case snd kv of
             Doc s \<Rightarrow> if After (EndTime s) since then [kv] else []
           | Garbage g \<Rightarrow> []))"

text \<open>What the loop appends for one session: one copy, or with a tag filter one copy
  for every tag of the session that the filter contains.\<close>

definition emit :: "string list \<Rightarrow> session \<Rightarrow> session list" where
  "emit tags s =
     (if tags \<noteq> [] then replicate (length (filter (\<lambda>t. t \<in> set tags) (Tags s))) s else [s])"

text \<open>
  The bucket of sessions after a sequence of \<open>UpdateSession\<close> calls on an empty one,
  when every session can be written.
\<close>

definition bucket_of :: "session list \<Rightarrow> session stored bucket" where
  "bucket_of ss =
     fold (\<lambda>s b. insert_pair (Format_RFC3339 (StartTime s)) (Doc (json_session s)) b) ss []"

definition with_sessions :: "session stored bucket \<Rightarrow> DB" where
  "with_sessions b = empty_DB\<lparr>sessions_bucket := Some b\<rparr>"

text \<open>Sessions and instants of one morning, for the examples.\<close>

definition nine :: time where "nine = Date 2023 1 5 9 0 0 0 0"
definition ten :: time where "ten = Date 2023 1 5 10 0 0 0 0"
definition eleven :: time where "eleven = Date 2023 1 5 11 0 0 0 0"

definition morning :: session where
  "morning = example_session nine (Date 2023 1 5 10 30 0 0 0) [''deep'', ''work'']"

definition midday :: session where
  "midday = example_session (Date 2023 1 5 10 15 0 0 0) (Date 2023 1 5 10 40 0 0 0) [''mail'']"

text \<open>A session of two nanoseconds within the second that begins at ten.\<close>

definition split_second :: session where
  "split_second = example_session (Date 2023 1 5 10 0 0 5 0) (Date 2023 1 5 10 0 0 7 0) []"

definition ten_and_9ns :: time where "ten_and_9ns = Date 2023 1 5 10 0 0 9 0"

text \<open>A session that ends in the year 10000, and a time stamp ten seconds east of UTC.\<close>

definition far_session :: session where
  "far_session = example_session ten (Date 10000 1 1 0 0 0 0 0) []"

definition ten_plus_10s :: time where "ten_plus_10s = Date 2023 1 5 10 0 0 0 10"

section \<open>Evaluating time stamps\<close>

lemmas time_eval = Date_def valid_time_def key_year_def days_in_month_def daysBefore_def leap_def
  Before_def After_def abs_seconds_def days_before_year_def days_before_month_def

section \<open>Properties of the timer state machine\<close>

lemma start_numeral:
  "start (numeral k) t session =
     (let t' = begin_session t session;
          entry = (session, counter t', iteration t')
      in if counter t' = maxPomodoros t' then ([entry], Some t')
         else (case start (pred_numeral k) t' (nextSession t') of
                 (entries, r) \<Rightarrow> (entry # entries, r)))"
  by (simp add: numeral_eq_Suc)

lemma start_returns_at_max:
  "counter (begin_session t session) = maxPomodoros t \<Longrightarrow>
     start (Suc fuel) t session =
       ([(session, counter (begin_session t session), iteration (begin_session t session))],
        Some (begin_session t session))"
  by (simp add: Let_def begin_session_def)

text \<open>
  C4 (the code departs from the claim). \<open>start\<close> increments the counter for every
  session, breaks included, and returns as soon as the counter equals \<open>maxPomodoros\<close>.
  A fresh timer with \<open>maxPomodoros = 2\<close> therefore runs one work session and one
  break, and returns after the break, for every long break interval and however much
  fuel is left: the second work session, after which the claim has the machine stop,
  is never started.
\<close>

theorem start_max2_stops_after_first_break:
  assumes "fresh t" and "maxPomodoros t = 2"
  shows "map fst (fst (start (Suc (Suc fuel)) t pomodoro))
           = [pomodoro, if longBreakInterval t = 1 then longBreak else shortBreak]
         \<and> map_option counter (snd (start (Suc (Suc fuel)) t pomodoro)) = Some 2"
  using assms
  by (simp add: fresh_def begin_session_def nextSession_def Let_def split: prod.splits)

theorem start_max2_stops_after_first_break_witness:
  "fresh (example_timer 4 2) \<and> maxPomodoros (example_timer 4 2) = 2
   \<and> map fst (fst (start 2 (example_timer 4 2) pomodoro)) = [pomodoro, shortBreak]
   \<and> map_option counter (snd (start 2 (example_timer 4 2) pomodoro)) = Some 2"
proof -
  have f: "fresh (example_timer 4 2)" and m: "maxPomodoros (example_timer 4 2) = 2"
    by (simp_all add: fresh_def example_timer_def)
  have l: "longBreakInterval (example_timer 4 2) \<noteq> 1"
    by (simp add: example_timer_def)
  have two: "(2::nat) = Suc (Suc 0)" by simp
  show ?thesis
    using start_max2_stops_after_first_break [OF f m, of 0] f m l unfolding two by simp
qed

text \<open>
  C5. A fresh timer with a long break interval of 4 starts, in this order: work
  sessions with iteration 1, 2, 3 and 4, each of the first three followed by a short
  break and the fourth by the long break, and then a work session with iteration 1
  again. A run that \<open>maxPomodoros\<close> ends within these nine sessions shows the first
  sessions of this sequence, as many as \<open>maxPomodoros\<close> says. In every state \<open>u\<close>, the
  session after a work session is the long break exactly when the iteration equals the
  long break interval, and a work session that starts in such a state starts the next
  cycle at iteration 1 (in any other it adds 1 to the iteration).
\<close>

theorem long_break_cycle:
  assumes "fresh t" and "longBreakInterval t = 4"
  shows "map (\<lambda>(s, c, i). (s, i)) (fst (start 9 t pomodoro)) =
           take (if maxPomodoros t \<in> {1, 2, 3, 4, 5, 6, 7, 8} then unat (maxPomodoros t) else 9)
             [(pomodoro, 1), (shortBreak, 1), (pomodoro, 2), (shortBreak, 2), (pomodoro, 3),
              (shortBreak, 3), (pomodoro, 4), (longBreak, 4), (pomodoro, 1)]
         \<and> nextSession (u\<lparr>currentSession := pomodoro\<rparr>) =
             (if iteration u = longBreakInterval u then longBreak else shortBreak)
         \<and> iteration (begin_session u pomodoro) =
             (if iteration u = longBreakInterval u then 1 else iteration u + 1)"
proof (intro conjI)
  consider "maxPomodoros t = 1" | "maxPomodoros t = 2" | "maxPomodoros t = 3" | "maxPomodoros t = 4"
    | "maxPomodoros t = 5" | "maxPomodoros t = 6" | "maxPomodoros t = 7" | "maxPomodoros t = 8"
    | "maxPomodoros t \<notin> {1, 2, 3, 4, 5, 6, 7, 8}" by auto
  then show "map (\<lambda>(s, c, i). (s, i)) (fst (start 9 t pomodoro)) =
           take (if maxPomodoros t \<in> {1, 2, 3, 4, 5, 6, 7, 8} then unat (maxPomodoros t) else 9)
             [(pomodoro, 1), (shortBreak, 1), (pomodoro, 2), (shortBreak, 2), (pomodoro, 3),
              (shortBreak, 3), (pomodoro, 4), (longBreak, 4), (pomodoro, 1)]"
    using assms
    by cases
      (simp_all add: start_numeral fresh_def begin_session_def nextSession_def Let_def
        split: prod.splits)
  show "nextSession (u\<lparr>currentSession := pomodoro\<rparr>) =
          (if iteration u = longBreakInterval u then longBreak else shortBreak)"
    by (simp add: nextSession_def)
  show "iteration (begin_session u pomodoro) =
          (if iteration u = longBreakInterval u then 1 else iteration u + 1)"
    by (simp add: begin_session_def)
qed

theorem long_break_cycle_witness:
  "fresh (example_timer 4 0) \<and> longBreakInterval (example_timer 4 0) = 4
   \<and> map (\<lambda>(s, c, i). (s, i)) (fst (start 9 (example_timer 4 0) pomodoro)) =
           [(pomodoro, 1), (shortBreak, 1), (pomodoro, 2), (shortBreak, 2), (pomodoro, 3),
            (shortBreak, 3), (pomodoro, 4), (longBreak, 4), (pomodoro, 1)]"
proof -
  have f: "fresh (example_timer 4 0)" and l: "longBreakInterval (example_timer 4 0) = 4"
    and m: "maxPomodoros (example_timer 4 0) \<notin> {1, 2, 3, 4, 5, 6, 7, 8}"
    by (simp_all add: fresh_def example_timer_def)
  show ?thesis using long_break_cycle [OF f l, of "example_timer 4 0"] f l m by simp
qed

section \<open>Opening the store\<close>

text \<open>
  C6. When another handle holds the lock of the file, \<open>openDB\<close> (in both versions of
  \<open>store.go\<close>) returns \<open>errFocusRunning\<close> and no handle after it has waited one
  second (1000000000 nanoseconds) for the lock, and so does \<open>NewClient\<close>: the call
  returns, it does not wait for the lock for ever. The second is the timeout
  \<open>1 * time.Second\<close> that \<open>openDB\<close> gives to \<open>bolt.Open\<close>.
\<close>

theorem open_locked_fails_with_errFocusRunning:
  assumes "locked (fs path)"
  shows "openDB fs path = Returns ((None, Some errFocusRunning), 1000000000)
         \<and> openDB_v1 fs path = Returns ((None, Some errFocusRunning), 1000000000)
         \<and> NewClient migrateV1_4_0 Version fs path
             = Returns ((None, Some errFocusRunning), 1000000000)
         \<and> NewClient_v1 fs path = Returns ((None, Some errFocusRunning), 1000000000)"
  using assms
  by (simp add: openDB_def openDB_v1_def NewClient_def NewClient_v1_def bolt_Open_def
      errors_Is_def Second_def)

theorem open_locked_fails_with_errFocusRunning_witness:
  "locked (held_path ''focus.db'')
   \<and> openDB held_path ''focus.db'' = Returns ((None, Some errFocusRunning), 1000000000)
   \<and> NewClient_v1 held_path ''focus.db'' = Returns ((None, Some errFocusRunning), 1000000000)"
proof -
  have l: "locked (held_path ''focus.db'')" by (simp add: held_path_def)
  show ?thesis
    using open_locked_fails_with_errFocusRunning [of held_path "''focus.db''", OF l] l by simp
qed

text \<open>
  C9 (the code departs from the claim). When \<open>bolt.Open\<close> fails with an error other
  than \<open>ErrTimeout\<close>, \<open>openDB\<close> of the second \<open>store.go\<close> returns a nil handle and a
  nil error: the error is dropped. \<open>NewClient\<close> then takes the open for a success and
  calls \<open>Update\<close> on the nil handle, which panics. \<open>openDB\<close> of the first
  \<open>store.go\<close> returns the error, and its \<open>NewClient\<close> passes it on. The lock is free,
  so none of the calls waits.
\<close>

theorem openDB_drops_open_error:
  assumes "\<not> locked (fs path)" and "on_open (fs path) = Inl e"
    and "e \<noteq> ErrTimeout" and "e \<noteq> ErrDatabaseOpen"
  shows "openDB fs path = Returns ((None, None), 0)
         \<and> NewClient migrateV1_4_0 Version fs path = Panics
         \<and> openDB_v1 fs path = Returns ((None, Some e), 0)
         \<and> NewClient_v1 fs path = Returns ((None, Some e), 0)"
  using assms
  by (simp add: openDB_def openDB_v1_def NewClient_def NewClient_v1_def bolt_Open_def
      errors_Is_def Update_handle_def)

theorem openDB_drops_open_error_witness:
  "\<not> locked (broken_path ''focus.db'')
   \<and> on_open (broken_path ''focus.db'') = Inl (OSError ''input/output error'')
   \<and> openDB broken_path ''focus.db'' = Returns ((None, None), 0)
   \<and> NewClient (\<lambda>tx. (tx, None)) ''v1.4.0'' broken_path ''focus.db'' = Panics
   \<and> openDB_v1 broken_path ''focus.db''
       = Returns ((None, Some (OSError ''input/output error'')), 0)"
proof -
  have l: "\<not> locked (broken_path ''focus.db'')"
    and o: "on_open (broken_path ''focus.db'') = Inl (OSError ''input/output error'')"
    by (simp_all add: broken_path_def)
  show ?thesis
    using openDB_drops_open_error [of broken_path "''focus.db''", OF l o] l o by simp
qed

section \<open>The order of the keys\<close>

subsection \<open>The calendar\<close>

lemma div_step: 
  fixes y d :: int assumes "0 < d"
  shows "y div d = (y - 1) div d + (if y mod d = 0 then 1 else 0)"
proof (cases "y mod d = 0")
  case True
  have "y = d * (y div d)" using True by auto
  then have "y - 1 = d * (y div d - 1) + (d - 1)"
    by (simp add: algebra_simps) 
  then have "(y - 1) div d = y div d - 1"
    using assms by (intro int_div_pos_eq [where r = "d - 1"]) auto
  then show ?thesis using True by simp
next
  case False
  have "0 \<le> y mod d" "y mod d < d" using assms by auto
  then have r: "0 \<le> y mod d - 1" "y mod d - 1 < d" using False by auto
  have "y - 1 = d * (y div d) + (y mod d - 1)"
    by (simp add: algebra_simps)
  then have "(y - 1) div d = y div d"
    using r by (intro int_div_pos_eq [where r = "y mod d - 1"]) auto
  then show ?thesis using False by simp
qed

lemma mod_100: assumes "(y::int) mod 100 = 0" shows "y mod 4 = 0"
proof -
  have "(100::int) dvd y" using assms by (simp add: mod_eq_0_iff_dvd)
  moreover have "(4::int) dvd 100" by simp
  ultimately have "(4::int) dvd y" by (rule dvd_trans [rotated])
  then show ?thesis by (simp add: mod_eq_0_iff_dvd)
qed

lemma mod_400: assumes "(y::int) mod 400 = 0" shows "y mod 100 = 0"
proof -
  have "(400::int) dvd y" using assms by (simp add: mod_eq_0_iff_dvd)
  moreover have "(100::int) dvd 400" by simp
  ultimately have "(100::int) dvd y" by (rule dvd_trans [rotated])
  then show ?thesis by (simp add: mod_eq_0_iff_dvd)
qed

lemma dby_step: "days_before_year (y + 1) = days_before_year y + (if leap y then 366 else 365)"
proof -
  define i4 :: int where "i4 = (if y mod 4 = 0 then 1 else 0)"
  define i100 :: int where "i100 = (if y mod 100 = 0 then 1 else 0)"
  define i400 :: int where "i400 = (if y mod 400 = 0 then 1 else 0)"
  define q4 q100 q400 where "q4 = y div 4" and "q100 = y div 100" and "q400 = y div 400"
  define p4 p100 p400 where "p4 = (y - 1) div 4" and "p100 = (y - 1) div 100"
    and "p400 = (y - 1) div 400"
  have 4: "q4 = p4 + i4" unfolding i4_def q4_def p4_def by (rule div_step) simp
  have 100: "q100 = p100 + i100" unfolding i100_def q100_def p100_def by (rule div_step) simp
  have 400: "q400 = p400 + i400" unfolding i400_def q400_def p400_def by (rule div_step) simp
  have e: "days_before_year (y + 1) = 365 * y + q4 - q100 + q400"
    by (simp add: days_before_year_def q4_def q100_def q400_def)
  have e0: "days_before_year y = 365 * (y - 1) + p4 - p100 + p400"
    by (simp add: days_before_year_def p4_def p100_def p400_def)
  have s: "days_before_year (y + 1) = days_before_year y + 365 + i4 - i100 + i400"
    unfolding e e0 4 100 400 by (simp add: algebra_simps)
  have l: "i4 - i100 + i400 = (if leap y then 1 else 0)"
    unfolding i4_def i100_def i400_def leap_def using mod_100 [of y] mod_400 [of y]
    by (cases "y mod 4 = 0"; cases "y mod 100 = 0"; cases "y mod 400 = 0") simp_all
  show ?thesis using s l by (simp split: if_splits)
qed

lemma dby_step_le: "days_before_year y + 365 \<le> days_before_year (y + 1)"
  by (simp add: dby_step)

lemma dby_mono_aux: "days_before_year y + 365 * int n \<le> days_before_year (y + int n)"
proof (induction n)
  case 0 show ?case by simp
next
  case (Suc n)
  have e: "y + int (Suc n) = (y + int n) + 1" by simp
  have "days_before_year (y + int n) + 365 \<le> days_before_year (y + int (Suc n))"
    unfolding e by (rule dby_step_le)
  moreover have "365 * int (Suc n) = 365 * int n + 365" by simp
  ultimately show ?case using Suc by linarith
qed

lemma dby_less: assumes "y1 < y2" shows "days_before_year y1 + 365 \<le> days_before_year y2"
proof -
  obtain n where n: "y2 = y1 + int (Suc n)"
    using assms by (metis zless_iff_Suc_zadd)
  have "(0::int) \<le> 365 * int n" by simp
  then show ?thesis using dby_mono_aux [of y1 "Suc n"] unfolding n by simp
qed

lemma dby_next: assumes "y1 < y2" shows "days_before_year y1 + (if leap y1 then 366 else 365) \<le> days_before_year y2"
proof (cases "y1 + 1 = y2")
  case True
  then show ?thesis using dby_step [of y1] by simp
next
  case False
  then have "y1 + 1 < y2" using assms by simp
  from dby_less [OF this] show ?thesis using dby_step [of y1] by simp
qed

lemma month_cases: "1 \<le> m \<Longrightarrow> m \<le> 12 \<Longrightarrow> m = 1 \<or> m = 2 \<or> m = 3 \<or> m = 4 \<or> m = 5 \<or> m = 6 \<or> m = 7 \<or> m = 8 \<or> m = 9 \<or> m = 10 \<or> m = 11 \<or> m = (12::nat)"
  by (simp add: eval_nat_numeral le_Suc_eq) 

lemma dbm_next: "1 \<le> m \<Longrightarrow> m \<le> 12 \<Longrightarrow> days_before_month y m + days_in_month y m = (if m = 12 then (if leap y then 366 else 365) else days_before_month y (Suc m))"
  apply (drule (1) month_cases)
  apply (elim disjE)
  apply (simp_all add: days_before_month_def days_in_month_def daysBefore_def)
  done

lemma dbm_mono_aux: "1 \<le> m \<Longrightarrow> m + n \<le> 12 \<Longrightarrow> days_before_month y m \<le> days_before_month y (m + n)"
proof (induction n)
  case 0 show ?case by simp
next
  case (Suc n)
  then have "days_before_month y m \<le> days_before_month y (m + n)" by simp
  also have "\<dots> \<le> days_before_month y (Suc (m + n))"
    using dbm_next [of "m + n" y] Suc.prems by simp
  finally show ?case by simp
qed

lemma dbm_less: assumes "1 \<le> m1" "m1 < m2" "m2 \<le> 12"
  shows "days_before_month y m1 + days_in_month y m1 \<le> days_before_month y m2"
proof -
  obtain n where n: "m2 = Suc m1 + n" using assms(2) by (metis less_iff_Suc_add add_Suc)
  have "days_before_month y m1 + days_in_month y m1 = days_before_month y (Suc m1)"
    using dbm_next [of m1 y] assms by simp
  also have "\<dots> \<le> days_before_month y (Suc m1 + n)"
    using dbm_mono_aux [of "Suc m1" n y] assms n by simp
  finally show ?thesis using n by simp
qed

lemma dbm_year: assumes "1 \<le> m" "m \<le> 12"
  shows "days_before_month y m + days_in_month y m \<le> (if leap y then 366 else 365)"
proof (cases "m = 12")
  case True then show ?thesis using dbm_next [of m y] by simp
next
  case False
  then have "m < 12" using assms by simp
  from dbm_less [OF assms(1) this, of y] dbm_next [of 12 y]
  show ?thesis by (simp split: if_splits)
qed

lemma abs_seconds_split: "abs_seconds t = day_number t * 86400 + second_of_day t - offset t"
  by (simp add: abs_seconds_def day_number_def second_of_day_def)

lemma second_of_day_bounds: "valid_time t \<Longrightarrow> 0 \<le> second_of_day t \<and> second_of_day t < 86400"
  by (simp add: valid_time_def second_of_day_def)

lemma day_number_less:
  assumes v1: "valid_time t1" and v2: "valid_time t2"
    and l: "[year t1, int (month t1), int (day t1)] < [year t2, int (month t2), int (day t2)]"
  shows "day_number t1 < day_number t2"
proof -
  have m1: "1 \<le> month t1" "month t1 \<le> 12" "1 \<le> day t1" "day t1 \<le> days_in_month (year t1) (month t1)"
    using v1 by (simp_all add: valid_time_def)
  have m2: "1 \<le> month t2" "month t2 \<le> 12" "1 \<le> day t2" "day t2 \<le> days_in_month (year t2) (month t2)"
    using v2 by (simp_all add: valid_time_def)
  consider (y) "year t1 < year t2"
    | (m) "year t1 = year t2" "month t1 < month t2"
    | (d) "year t1 = year t2" "month t1 = month t2" "day t1 < day t2"
    using l by auto
  then show ?thesis
  proof cases
    case y
    have "int (days_before_month (year t1) (month t1)) + int (day t1)
            \<le> int (days_before_month (year t1) (month t1) + days_in_month (year t1) (month t1))"
      using m1 by simp
    also have "\<dots> \<le> (if leap (year t1) then 366 else 365)"
      using dbm_year [OF m1(1,2), of "year t1"] by (simp split: if_splits)
    finally have "day_number t1 < days_before_year (year t1) + (if leap (year t1) then 366 else 365)"
      by (simp add: day_number_def)
    also have "\<dots> \<le> days_before_year (year t2)" by (rule dby_next [OF y])
    also have "\<dots> \<le> day_number t2" using m2 by (simp add: day_number_def)
    finally show ?thesis .
  next
    case m
    have "days_before_month (year t1) (month t1) + day t1
            \<le> days_before_month (year t1) (month t1) + days_in_month (year t1) (month t1)"
      using m1 by simp
    also have "\<dots> \<le> days_before_month (year t1) (month t2)"
      by (rule dbm_less [OF m1(1) m(2) m2(2)])
    finally have "days_before_month (year t1) (month t1) + day t1 < days_before_month (year t2) (month t2) + day t2"
      using m2 m(1) by simp
    then show ?thesis by (simp add: day_number_def m(1))
  next
    case d
    then show ?thesis by (simp add: day_number_def)
  qed
qed

lemma second_of_day_less:
  assumes v1: "valid_time t1" and v2: "valid_time t2"
    and l: "[int (hour t1), int (minute t1), int (second t1)] < [int (hour t2), int (minute t2), int (second t2)]"
  shows "second_of_day t1 < second_of_day t2"
proof -
  have b1: "minute t1 < 60" "second t1 < 60" using v1 by (simp_all add: valid_time_def)
  have b2: "minute t2 < 60" "second t2 < 60" using v2 by (simp_all add: valid_time_def)
  consider (h) "hour t1 < hour t2"
    | (m) "hour t1 = hour t2" "minute t1 < minute t2"
    | (s) "hour t1 = hour t2" "minute t1 = minute t2" "second t1 < second t2"
    using l by auto
  then show ?thesis
  proof cases
    case h then show ?thesis using b1 b2 unfolding second_of_day_def by linarith
  next
    case m then show ?thesis using b1 b2 unfolding second_of_day_def by linarith
  next
    case s then show ?thesis using b1 b2 unfolding second_of_day_def by linarith
  qed
qed

lemma civil_less_imp:
  assumes v1: "valid_time t1" and v2: "valid_time t2" and l: "civil t1 < civil t2"
  shows "day_number t1 * 86400 + second_of_day t1 < day_number t2 * 86400 + second_of_day t2"
proof -
  consider (date) "[year t1, int (month t1), int (day t1)] < [year t2, int (month t2), int (day t2)]"
    | (clock) "year t1 = year t2" "month t1 = month t2" "day t1 = day t2"
        "[int (hour t1), int (minute t1), int (second t1)] < [int (hour t2), int (minute t2), int (second t2)]"
    using l unfolding civil_def by auto
  then show ?thesis
  proof cases
    case date
    have "day_number t1 + 1 \<le> day_number t2"
      using day_number_less [OF v1 v2 date] by simp
    then show ?thesis
      using second_of_day_bounds [OF v1] second_of_day_bounds [OF v2] by linarith
  next
    case clock
    have "day_number t1 = day_number t2" using clock by (simp add: day_number_def)
    then show ?thesis using second_of_day_less [OF v1 v2 clock(4)] by simp
  qed
qed

lemma civil_eq_imp: "civil t1 = civil t2 \<Longrightarrow>
    day_number t1 * 86400 + second_of_day t1 = day_number t2 * 86400 + second_of_day t2"
  by (simp add: civil_def day_number_def second_of_day_def)

lemma civil_less_iff:
  assumes v1: "valid_time t1" and v2: "valid_time t2" and o: "offset t1 = offset t2"
  shows "abs_seconds t1 < abs_seconds t2 \<longleftrightarrow> civil t1 < civil t2"
proof -
  consider "civil t1 < civil t2" | "civil t1 = civil t2" | "civil t2 < civil t1"
    by (rule linorder_cases)
  then show ?thesis
  proof cases
    case 1 then show ?thesis using civil_less_imp [OF v1 v2] o by (simp add: abs_seconds_split)
  next
    case 2 then show ?thesis using civil_eq_imp [of t1 t2] o by (simp add: abs_seconds_split)
  next
    case 3 
    then have "\<not> civil t1 < civil t2" by simp
    then show ?thesis using civil_less_imp [OF v2 v1 3] o by (simp add: abs_seconds_split)
  qed
qed

subsection \<open>Digits and fields\<close>

lemma utod_less_iff: "a < 10 \<Longrightarrow> b < 10 \<Longrightarrow> utod a < utod b \<longleftrightarrow> a < b"
  by (simp add: utod_def less_char_def)

lemma utod_eq_iff: "a < 10 \<Longrightarrow> b < 10 \<Longrightarrow> utod a = utod b \<longleftrightarrow> a = b"
proof -
  assume a: "a < 10" "b < 10"
  have "of_char (utod a) = 48 + a" "of_char (utod b) = 48 + b"
    using a by (simp_all add: utod_def)
  then show ?thesis by (metis add_left_cancel)
qed

lemma utod_0: "CHR ''0'' = utod 0"
  by code_simp

lemma divmod_lex:
  fixes a b k :: nat
  assumes "0 < k"
  shows "(a div k < b div k \<or> a div k = b div k \<and> a mod k < b mod k) \<longleftrightarrow> a < b"
proof -
  define qa ra qb rb where "qa = a div k" and "ra = a mod k" and "qb = b div k" and "rb = b mod k"
  have a: "a = k * qa + ra" and b: "b = k * qb + rb" by (simp_all add: qa_def ra_def qb_def rb_def)
  have r: "ra < k" "rb < k" using assms by (simp_all add: ra_def rb_def)
  have "qa < qb \<Longrightarrow> k * qa + ra < k * qb + rb"
  proof -
    assume "qa < qb"
    then have "k * (qa + 1) \<le> k * qb" by (intro mult_le_mono2) simp
    then show ?thesis using r by simp
  qed
  moreover have "qb < qa \<Longrightarrow> k * qb + rb < k * qa + ra"
  proof -
    assume "qb < qa"
    then have "k * (qb + 1) \<le> k * qa" by (intro mult_le_mono2) simp
    then show ?thesis using r by simp
  qed
  ultimately show ?thesis 
    unfolding qa_def [symmetric] ra_def [symmetric] qb_def [symmetric] rb_def [symmetric]
    unfolding a b by (cases qa qb rule: linorder_cases) auto
qed

lemma divmod_eq:
  fixes a b :: nat
  shows "(a div k = b div k \<and> a mod k = b mod k) \<longleftrightarrow> a = b"
  by (metis div_mult_mod_eq)

lemma digits_lt_10: "n < 10 \<Longrightarrow> digits n = [utod n]"
  by (simp add: digits.simps)

lemma digits_ge_10: "10 \<le> n \<Longrightarrow> digits n = digits (n div 10) @ [utod (n mod 10)]"
  by (subst digits.simps) simp

lemma digits_lt_100: assumes "10 \<le> n" "n < 100" shows "digits n = [utod (n div 10), utod (n mod 10)]"
proof -
  have "n div 10 < 10" using assms by simp
  then show ?thesis using assms by (simp add: digits_ge_10 digits_lt_10)
qed

lemma digits_lt_1000: assumes "100 \<le> n" "n < 1000" shows "digits n = [utod (n div 100), utod (n div 10 mod 10), utod (n mod 10)]"
proof -
  have b: "10 \<le> n div 10" "n div 10 < 100" using assms by simp_all
  have e: "n div 10 div 10 = n div 100" by (simp add: div_mult2_eq [symmetric])
  have "10 \<le> n" using assms by simp
  then have "digits n = digits (n div 10) @ [utod (n mod 10)]" by (rule digits_ge_10)
  also have "digits (n div 10) = [utod (n div 10 div 10), utod (n div 10 mod 10)]"
    using b by (rule digits_lt_100)
  finally show ?thesis by (simp add: e)
qed

lemma digits_lt_10000: assumes "1000 \<le> n" "n < 10000" shows "digits n = [utod (n div 1000), utod (n div 100 mod 10), utod (n div 10 mod 10), utod (n mod 10)]"
proof -
  have b: "100 \<le> n div 10" "n div 10 < 1000" using assms by simp_all
  have e: "n div 10 div 100 = n div 1000" "n div 10 div 10 = n div 100" by (simp_all add: div_mult2_eq [symmetric])
  have "10 \<le> n" using assms by simp
  then have "digits n = digits (n div 10) @ [utod (n mod 10)]" by (rule digits_ge_10)
  also have "digits (n div 10) = [utod (n div 10 div 100), utod (n div 10 div 10 mod 10), utod (n div 10 mod 10)]"
    using b by (rule digits_lt_1000)
  finally show ?thesis by (simp add: e)
qed

lemma appendInt_2: "n < 100 \<Longrightarrow> appendInt (int n) 2 = pad2 n"
  by (cases "n < 10") (simp_all add: appendInt_def pad2_def digits_lt_10 digits_lt_100 utod_0)

lemma replicate_3: "replicate 3 c = [c, c, c]"
  by (simp add: numeral_3_eq_3)

lemma replicate_2: "replicate 2 c = [c, c]"
  by (simp add: numeral_2_eq_2)

lemma appendInt_4: assumes "n < 10000" shows "appendInt (int n) 4 = pad4 n"
proof -
  consider "n < 10" | "10 \<le> n" "n < 100" | "100 \<le> n" "n < 1000" | "1000 \<le> n" "n < 10000"
    using assms by linarith
  then show ?thesis
  proof cases
    case 1 then show ?thesis 
      by (simp add: appendInt_def pad4_def digits_lt_10 utod_0 replicate_3)
  next
    case 2 then show ?thesis 
      by (simp add: appendInt_def pad4_def digits_lt_100 utod_0 replicate_2)
  next
    case 3 then show ?thesis 
      by (simp add: appendInt_def pad4_def digits_lt_1000 utod_0)
  next
    case 4 then show ?thesis
      by (simp add: appendInt_def pad4_def digits_lt_10000 utod_0)
  qed
qed

lemma pad2_less_iff: assumes "a < 100" "b < 100" shows "pad2 a < pad2 b \<longleftrightarrow> a < b"
proof -
  have d: "a div 10 < 10" "b div 10 < 10" "a mod 10 < 10" "b mod 10 < 10" using assms by auto
  have "pad2 a < pad2 b \<longleftrightarrow> a div 10 < b div 10 \<or> a div 10 = b div 10 \<and> a mod 10 < b mod 10"
    using d by (simp add: pad2_def utod_less_iff utod_eq_iff)
  also have "\<dots> \<longleftrightarrow> a < b" by (rule divmod_lex) simp
  finally show ?thesis .
qed

lemma pad2_eq_iff: assumes "a < 100" "b < 100" shows "pad2 a = pad2 b \<longleftrightarrow> a = b"
proof -
  have d: "a div 10 < 10" "b div 10 < 10" "a mod 10 < 10" "b mod 10 < 10" using assms by auto
  have "pad2 a = pad2 b \<longleftrightarrow> a div 10 = b div 10 \<and> a mod 10 = b mod 10"
    using d by (simp add: pad2_def utod_eq_iff)
  also have "\<dots> \<longleftrightarrow> a = b" by (rule divmod_eq)
  finally show ?thesis .
qed

lemma length_pad2: "length (pad2 n) = 2"
  by (simp add: pad2_def)

lemma append_less_append:
  "length a = length b \<Longrightarrow> a @ r < b @ s \<longleftrightarrow> a < b \<or> a = b \<and> r < (s :: 'a :: linorder list)"
proof (induction a b rule: list_induct2)
  case Nil
  show ?case by simp
next
  case (Cons x xs y ys)
  have "(x # xs) @ r < (y # ys) @ s \<longleftrightarrow> x < y \<or> x = y \<and> xs @ r < ys @ s" by simp
  also have "\<dots> \<longleftrightarrow> x < y \<or> x = y \<and> (xs < ys \<or> xs = ys \<and> r < s)"
    unfolding Cons.IH ..
  also have "\<dots> \<longleftrightarrow> x # xs < y # ys \<or> x # xs = y # ys \<and> r < s"
    unfolding Cons_less_Cons list.inject by blast
  finally show ?case .
qed

lemma pad4_pad2: "pad4 n = pad2 (n div 100) @ pad2 (n mod 100)"
proof -
  have "n div 100 div 10 = n div 1000" by (simp add: div_mult2_eq [symmetric])
  moreover have m: "n mod (10 * 10) = 10 * (n div 10 mod 10) + n mod 10" by (rule mod_mult2_eq)
  have "n mod 100 div 10 = n div 10 mod 10"
    using m by simp
  moreover have "n mod 100 mod 10 = n mod 10"
    using m by simp
  ultimately show ?thesis by (simp add: pad4_def pad2_def)
qed

lemma days_in_month_le: "1 \<le> m \<Longrightarrow> m \<le> 12 \<Longrightarrow> days_in_month y m \<le> 31"
  apply (drule (1) month_cases)
  apply (elim disjE)
  apply (simp_all add: days_in_month_def daysBefore_def)
  done

lemma length_pad4: "length (pad4 n) = 4"
  by (simp add: pad4_def)

lemma pad4_less_iff: assumes "a < 10000" "b < 10000" shows "pad4 a < pad4 b \<longleftrightarrow> a < b"
proof -
  have d: "a div 100 < 100" "b div 100 < 100" "a mod 100 < 100" "b mod 100 < 100" using assms by auto
  have "pad4 a < pad4 b \<longleftrightarrow> a div 100 < b div 100 \<or> a div 100 = b div 100 \<and> a mod 100 < b mod 100"
    using d by (simp add: pad4_pad2 append_less_append length_pad2 pad2_less_iff pad2_eq_iff)
  also have "\<dots> \<longleftrightarrow> a < b" by (rule divmod_lex) simp
  finally show ?thesis .
qed

lemma pad4_eq_iff: assumes "a < 10000" "b < 10000" shows "pad4 a = pad4 b \<longleftrightarrow> a = b"
proof -
  have d: "a div 100 < 100" "b div 100 < 100" "a mod 100 < 100" "b mod 100 < 100" using assms by auto
  have "pad4 a = pad4 b \<longleftrightarrow> a div 100 = b div 100 \<and> a mod 100 = b mod 100"
    using d by (simp add: pad4_pad2 length_pad2 pad2_eq_iff)
  also have "\<dots> \<longleftrightarrow> a = b" by (rule divmod_eq)
  finally show ?thesis .
qed

lemma valid_time_bounds:
  assumes "valid_time t"
  shows "month t < 100" "day t < 100" "hour t < 100" "minute t < 100" "second t < 100"
proof -
  have m: "1 \<le> month t" "month t \<le> 12" "day t \<le> days_in_month (year t) (month t)"
    using assms by (simp_all add: valid_time_def)
  show "month t < 100" using m by simp
  show "day t < 100" using days_in_month_le [OF m(1,2), of "year t"] m(3) by simp
  show "hour t < 100" "minute t < 100" "second t < 100"
    using assms by (simp_all add: valid_time_def)
qed

lemma Format_fields:
  assumes v: "valid_time t" and y: "key_year t"
  shows "Format_RFC3339 t =
     pad4 (nat (year t)) @ CHR ''-'' # pad2 (month t) @ CHR ''-'' # pad2 (day t) @ CHR ''T'' #
     pad2 (hour t) @ CHR '':'' # pad2 (minute t) @ CHR '':'' # pad2 (second t) @ format_zone (offset t)"
proof -
  have "nat (year t) < 10000" "year t = int (nat (year t))" using y unfolding key_year_def by linarith+
  then have "appendInt (year t) 4 = pad4 (nat (year t))" using appendInt_4 by metis
  then show ?thesis
    using valid_time_bounds [OF v] by (simp add: Format_RFC3339_def appendInt_2)
qed

lemma sep_less: "c # (r :: string) < c # s \<longleftrightarrow> r < s"
  by simp

lemma Format_less_iff:
  assumes v1: "valid_time t1" and v2: "valid_time t2" and y1: "key_year t1" and y2: "key_year t2"
    and o: "offset t1 = offset t2"
  shows "Format_RFC3339 t1 < Format_RFC3339 t2 \<longleftrightarrow> civil t1 < civil t2"
proof -
  have n: "nat (year t1) < 10000" "nat (year t2) < 10000"
    using y1 y2 unfolding key_year_def by linarith+
  have yy: "nat (year t1) < nat (year t2) \<longleftrightarrow> year t1 < year t2"
     "nat (year t1) = nat (year t2) \<longleftrightarrow> year t1 = year t2" 
    using y1 y2 by (auto simp add: key_year_def)
  note b1 = valid_time_bounds [OF v1] and b2 = valid_time_bounds [OF v2]
  show ?thesis
    unfolding Format_fields [OF v1 y1] Format_fields [OF v2 y2] civil_def o
    using n b1 b2 y1 y2
    by (auto simp add: append_less_append length_pad2 length_pad4 pad4_less_iff pad4_eq_iff
        pad2_less_iff pad2_eq_iff yy key_year_def)
qed

subsection \<open>Keys against instants\<close>

text \<open>
  C8 (amended). For two valid time stamps of the same zone offset with years from 0 to
  9999, the key of the first is below the key of the second exactly when the instant of
  the first, cut to whole seconds, is before that of the second. So the byte order of
  the keys is the chronological order at a resolution of one second, and a time stamp
  before another never has the greater key.
\<close>

theorem key_order_is_chronological:
  assumes "valid_time t1" and "valid_time t2" and "key_year t1" and "key_year t2"
    and "offset t1 = offset t2"
  shows "(Format_RFC3339 t1 < Format_RFC3339 t2 \<longleftrightarrow> abs_seconds t1 < abs_seconds t2)
         \<and> (Before t1 t2 \<longrightarrow> Format_RFC3339 t1 \<le> Format_RFC3339 t2)"
proof -
  have a: "Format_RFC3339 t1 < Format_RFC3339 t2 \<longleftrightarrow> abs_seconds t1 < abs_seconds t2"
    using Format_less_iff [OF assms] civil_less_iff [OF assms(1,2,5)] by simp
  have b: "Format_RFC3339 t2 < Format_RFC3339 t1 \<longleftrightarrow> abs_seconds t2 < abs_seconds t1"
    using Format_less_iff [OF assms(2,1,4,3)] civil_less_iff [OF assms(2,1)] assms(5) by simp
  have "Format_RFC3339 t1 \<le> Format_RFC3339 t2" if "Before t1 t2"
  proof -
    have "\<not> abs_seconds t2 < abs_seconds t1" using that by (auto simp: Before_def)
    then show ?thesis using b by simp
  qed
  then show ?thesis using a by blast
qed

theorem key_order_is_chronological_witness:
  "valid_time (Date 2023 1 5 10 0 0 0 0) \<and> valid_time (Date 2023 1 5 10 0 1 0 0)
   \<and> key_year (Date 2023 1 5 10 0 0 0 0) \<and> key_year (Date 2023 1 5 10 0 1 0 0)
   \<and> offset (Date 2023 1 5 10 0 0 0 0) = offset (Date 2023 1 5 10 0 1 0 0)
   \<and> abs_seconds (Date 2023 1 5 10 0 0 0 0) < abs_seconds (Date 2023 1 5 10 0 1 0 0)
   \<and> Format_RFC3339 (Date 2023 1 5 10 0 0 0 0) < Format_RFC3339 (Date 2023 1 5 10 0 1 0 0)"
proof -
  let ?a = "Date 2023 1 5 10 0 0 0 0" and ?b = "Date 2023 1 5 10 0 1 0 0"
  have v: "valid_time ?a" "valid_time ?b" by (simp_all add: time_eval)
  have y: "key_year ?a" "key_year ?b" by (simp_all add: time_eval)
  have o: "offset ?a = offset ?b" by (simp add: time_eval)
  have l: "abs_seconds ?a < abs_seconds ?b" by (simp add: time_eval)
  show ?thesis
    using key_order_is_chronological [OF v y o] v y o l by simp
qed

text \<open>
  C8 as stated fails. A time stamp at 10:00:00 in the zone +01:00 is half an hour before
  one at 09:30:00 UTC, and has the greater key. Two time stamps half a second apart
  within one second have the same key.
\<close>

theorem key_order_counterexample:
  "valid_time (Date 2023 1 5 10 0 0 0 3600) \<and> valid_time (Date 2023 1 5 9 30 0 0 0)
   \<and> Before (Date 2023 1 5 10 0 0 0 3600) (Date 2023 1 5 9 30 0 0 0)
   \<and> Format_RFC3339 (Date 2023 1 5 9 30 0 0 0) < Format_RFC3339 (Date 2023 1 5 10 0 0 0 3600)
   \<and> valid_time (Date 2023 1 5 10 0 0 0 0) \<and> valid_time (Date 2023 1 5 10 0 0 500000000 0)
   \<and> Before (Date 2023 1 5 10 0 0 0 0) (Date 2023 1 5 10 0 0 500000000 0)
   \<and> Format_RFC3339 (Date 2023 1 5 10 0 0 0 0) = Format_RFC3339 (Date 2023 1 5 10 0 0 500000000 0)"
proof -
  have "Format_RFC3339 (Date 2023 1 5 9 30 0 0 0) < Format_RFC3339 (Date 2023 1 5 10 0 0 0 3600)"
    by code_simp
  moreover have "Format_RFC3339 (Date 2023 1 5 10 0 0 0 0) = Format_RFC3339 (Date 2023 1 5 10 0 0 500000000 0)"
    by (simp add: Format_RFC3339_def Date_def)
  ultimately show ?thesis by (simp add: time_eval)
qed

section \<open>Writing sessions and the interrupted timer\<close>

lemma Format_RFC3339_not_empty: "Format_RFC3339 t \<noteq> []"
  by (simp add: Format_RFC3339_def)

lemma map_of_insert_pair: "map_of (insert_pair k v b) = (map_of b)(k \<mapsto> v)"
  by (induction b) (auto simp: fun_upd_twist)

lemma Get_insert_pair: "Get (insert_pair k v b) key = (if key = k then Some v else Get b key)"
  by (simp add: Get_def map_of_insert_pair)

lemma in_insert_pair: "x \<in> set (insert_pair k v b) \<Longrightarrow> fst x = k \<or> x \<in> set b"
  by (induction b) (auto split: if_splits)

lemma bucket_ok_insert_pair: "bucket_ok b \<Longrightarrow> bucket_ok (insert_pair k v b)"
  unfolding bucket_ok_def
proof (induction b)
  case Nil
  show ?case by simp
next
  case (Cons p b)
  obtain k' v' where p: "p = (k', v')" by (cases p)
  have s: "sorted_wrt (<) (map fst b)" and l: "\<forall>x\<in>set b. k' < fst x"
    using Cons.prems by (auto simp: p)
  show ?case
  proof (cases "k < k'")
    case True
    then show ?thesis using Cons.prems l by (auto simp: p)
  next
    case False
    show ?thesis
    proof (cases "k = k'")
      case True
      then show ?thesis using Cons.prems by (simp add: p)
    next
      case ne: False
      then have "k' < k" using False by simp
      then have "\<forall>x\<in>set (insert_pair k v b). k' < fst x"
        using l in_insert_pair [of _ k v b] by blast
      then show ?thesis using Cons.IH [OF s] False ne by (simp add: p)
    qed
  qed
qed

subsection \<open>What \<open>json.Marshal\<close> writes for a session\<close>

lemma go_div_60: "60 dvd a \<Longrightarrow> go_div a 60 * 60 = a"
  by (auto simp: go_div_def abs_mult sgn_mult mult_sgn_abs elim!: dvdE)

lemma json_time_whole_minutes: "60 dvd offset t \<Longrightarrow> json_time t = t"
  by (simp add: json_time_def go_div_60)

lemma json_string_ascii: "\<forall>c\<in>set s. byte_of c < 128 \<Longrightarrow> json_string s = s"
proof (induction s)
  case Nil
  show ?case by (simp add: json_string.simps)
next
  case (Cons a s)
  then show ?case by (subst json_string.simps) simp
qed

lemma json_session_exact: "stored_exactly s \<Longrightarrow> json_session s = s"
  by (simp add: stored_exactly_def json_session_def json_time_whole_minutes list_all_iff map_idI)

lemma json_Marshal_ok:
  "MarshalJSON_ok (StartTime s) \<Longrightarrow> MarshalJSON_ok (EndTime s) \<Longrightarrow>
     json_Marshal s = Inr (Doc (json_session s))"
  by (simp add: json_Marshal_def)

lemma json_Marshal_exact: "stored_exactly s \<Longrightarrow> json_Marshal s = Inr (Doc s)"
  by (simp add: json_Marshal_def json_session_exact) (simp add: stored_exactly_def)

text \<open>
  A zone offset of ten seconds is not written: the session read back has its time
  stamps ten seconds later than the session written.
\<close>

lemma json_Marshal_cuts_seconds:
  "json_Marshal (example_session ten_plus_10s ten_plus_10s [])
     = Inr (Doc (example_session ten ten []))"
  by (simp add: json_Marshal_def json_session_def json_time_def MarshalJSON_ok_def go_div_def
      example_session_def ten_plus_10s_def ten_def Date_def)

text \<open>
  C10 (amended). \<open>UpdateSessions\<close> on a map that is not empty returns in the first
  round of its loop: whatever entries follow the first one in the order of the
  iteration, the result is that of the map with the first entry alone. If
  \<open>json.Marshal\<close> succeeds for the session of that entry, which it does when both time
  stamps have a year in 0..9999 and a zone offset below 24 hours, one pair is written,
  under the key of the entry, and the value of every other key of the bucket is as
  before. If it fails, the error is returned and nothing is written.
\<close>

theorem UpdateSessions_writes_one_entry:
  assumes "sessions_bucket c = Some b"
  shows "UpdateSessions c ((k, v) # rest) =
           (if MarshalJSON_ok (StartTime v) \<and> MarshalJSON_ok (EndTime v)
            then Returns (c\<lparr>sessions_bucket :=
                            Some (insert_pair (ToKey k) (Doc (json_session v)) b)\<rparr>, None)
            else Returns (c, Some MarshalerError))
         \<and> UpdateSessions c ((k, v) # rest) = UpdateSessions c [(k, v)]
         \<and> Get (insert_pair (ToKey k) (Doc (json_session v)) b) key =
             (if key = ToKey k then Some (Doc (json_session v)) else Get b key)"
  using assms
  by (simp add: Update_def Put_def ToKey_def json_Marshal_def Format_RFC3339_not_empty
      Get_insert_pair)

theorem UpdateSessions_writes_one_entry_witness:
  "sessions_bucket empty_DB = Some []
   \<and> UpdateSessions empty_DB
         [(Date 2023 1 5 10 0 0 0 0, example_session (Date 2023 1 5 10 0 0 0 0) (Date 2023 1 5 10 25 0 0 0) []),
          (Date 2023 1 5 11 0 0 0 0, example_session (Date 2023 1 5 11 0 0 0 0) (Date 2023 1 5 11 25 0 0 0) [])]
       = Returns (empty_DB\<lparr>sessions_bucket :=
           Some [(''2023-01-05T10:00:00Z'',
                  Doc (example_session (Date 2023 1 5 10 0 0 0 0) (Date 2023 1 5 10 25 0 0 0) []))]\<rparr>, None)"
proof -
  let ?s = "example_session (Date 2023 1 5 10 0 0 0 0) (Date 2023 1 5 10 25 0 0 0) []"
  have b: "sessions_bucket empty_DB = Some []" by (simp add: empty_DB_def)
  have k: "ToKey (Date 2023 1 5 10 0 0 0 0) = ''2023-01-05T10:00:00Z''" by code_simp
  have m: "MarshalJSON_ok (StartTime ?s)" "MarshalJSON_ok (EndTime ?s)"
    by (simp_all add: MarshalJSON_ok_def go_div_def example_session_def Date_def)
  have j: "json_session ?s = ?s"
    by (simp add: json_session_def json_time_def go_div_def example_session_def Date_def)
  show ?thesis
    using UpdateSessions_writes_one_entry [OF b, of "Date 2023 1 5 10 0 0 0 0" ?s] b m
    unfolding k j by simp
qed

text \<open>
  C10 as stated fails. The map holds one session, which ends in the year 10000:
  \<open>json.Marshal\<close> returns an error, \<open>UpdateSessions\<close> returns it, and the bucket
  is as empty as before; no session is written.
\<close>

theorem UpdateSessions_counterexample:
  "UpdateSessions empty_DB [(ten, far_session)] = Returns (empty_DB, Some MarshalerError)
   \<and> sessions_bucket empty_DB = Some []"
  by (simp add: json_Marshal_def MarshalJSON_ok_def far_session_def example_session_def
      Date_def empty_DB_def)

lemma std_streams_strip: "std_streams (strip_streams c) = std_streams c"
  by (simp add: std_streams_def strip_streams_def)





section \<open>Range queries\<close>

lemma append_per_tag_replicate:
  "append_per_tag tags ts x r = r @ replicate (length (filter (\<lambda>t. t \<in> set tags) ts)) x"
  unfolding append_per_tag_def
proof (induction ts arbitrary: r)
  case Nil
  show ?case by simp
next
  case (Cons t ts)
  show ?case by (simp add: Cons.IH replicate_append_same)
qed

declare scan.simps [simp del] scan_v1.simps [simp del] scan_values.simps [simp del]

lemma Next_at:
  "Next \<lparr>pairs = b, pos = i\<rparr> =
     (if Suc i < length b then (\<lparr>pairs = b, pos = Suc i\<rparr>, Some (b ! Suc i))
      else (\<lparr>pairs = b, pos = i\<rparr>, None))"
  by (simp add: Next_def)

lemma scan_drop:
  "i < length b \<Longrightarrow>
     scan \<lparr>pairs = b, pos = i\<rparr> (Some (b ! i)) mx tags result = scan_pairs mx tags (drop i b) result"
proof (induction "length b - i" arbitrary: i result)
  case 0
  then show ?case by simp
next
  case (Suc n)
  obtain k v where kv: "b ! i = (k, v)" by (cases "b ! i")
  have d: "drop i b = (k, v) # drop (Suc i) b"
    using Suc.prems kv by (metis Cons_nth_drop_Suc)
  show ?case
  proof (cases "Suc i < length b")
    case True
    have n: "n = length b - Suc i" using Suc.hyps(2) by simp
    show ?thesis
      using Suc.hyps(1) [OF n True] True
      by (simp add: kv d Next_at Let_def scan.simps split: sum.splits)
  next
    case False
    then have "drop (Suc i) b = []" by simp
    then show ?thesis
      using False by (simp add: kv d Next_at Let_def scan.simps split: sum.splits)
  qed
qed

lemma scan_pair_at:
  "scan \<lparr>pairs = b, pos = i\<rparr> (pair_at b i) mx tags result = scan_pairs mx tags (drop i b) result"
  by (cases "i < length b") (simp_all add: pair_at_def scan_drop scan.simps)

lemma GetSessions_unfold:
  fixes b :: "session stored bucket" and since :: time
  assumes "sessions_bucket db = Some b"
  defines "i \<equiv> length (takeWhile (\<lambda>kv. fst kv < Format_RFC3339 since) b)"
  shows "GetSessions db since until tags =
     (if i = 0 then Returns (scan_pairs (Format_RFC3339 until) tags b [])
      else case json_Unmarshal (snd (b ! (i - 1))) of
             Inl e \<Rightarrow> Returns ([], Some e)
           | Inr s \<Rightarrow>
               if After (EndTime s) since
               then Returns (scan_pairs (Format_RFC3339 until) tags (drop (i - 1) b) [])
               else Returns (scan_pairs (Format_RFC3339 until) tags (drop i b) []))"
proof -
  have le: "i \<le> length b" unfolding i_def by (rule length_takeWhile_le)
  have c1: "Seek (Cursor b) (Format_RFC3339 since) = (\<lparr>pairs = b, pos = i\<rparr>, pair_at b i)"
    by (simp add: Seek_def Cursor_def Let_def pair_at_def i_def)
  have c3: "Seek \<lparr>pairs = b, pos = 0\<rparr> (Format_RFC3339 since) = (\<lparr>pairs = b, pos = i\<rparr>, pair_at b i)"
    by (simp add: Seek_def Let_def pair_at_def i_def)
  show ?thesis
  proof (cases "i = 0")
    case True
    have pr: "Prev \<lparr>pairs = b, pos = 0\<rparr> = (\<lparr>pairs = b, pos = 0\<rparr>, None)"
      by (simp add: Prev_def)
    have c1': "Seek (Cursor b) (Format_RFC3339 since) = (\<lparr>pairs = b, pos = 0\<rparr>, pair_at b 0)"
      and c3': "Seek \<lparr>pairs = b, pos = 0\<rparr> (Format_RFC3339 since) = (\<lparr>pairs = b, pos = 0\<rparr>, pair_at b 0)"
      using c1 c3 True by simp_all
    have "scan \<lparr>pairs = b, pos = 0\<rparr> (pair_at b 0) (Format_RFC3339 until) tags []
            = scan_pairs (Format_RFC3339 until) tags b []"
      using scan_pair_at [of b 0] by simp
    then show ?thesis
      using True assms(1) by (simp add: GetSessions_def Let_def c1' c3' pr)
  next
    case False
    then have lt: "i - 1 < length b" using le by simp
    obtain pk pv where p: "b ! (i - 1) = (pk, pv)" by (cases "b ! (i - 1)")
    have pr: "Prev \<lparr>pairs = b, pos = i\<rparr> = (\<lparr>pairs = b, pos = i - 1\<rparr>, Some (pk, pv))"
      using False p by (simp add: Prev_def)
    have a: "scan \<lparr>pairs = b, pos = i - 1\<rparr> (Some (pk, pv)) (Format_RFC3339 until) tags []
            = scan_pairs (Format_RFC3339 until) tags (drop (i - 1) b) []"
      unfolding p [symmetric] by (rule scan_drop [OF lt])
    have n: "scan (fst (Next \<lparr>pairs = b, pos = i - 1\<rparr>)) (snd (Next \<lparr>pairs = b, pos = i - 1\<rparr>))
               (Format_RFC3339 until) tags []
            = scan_pairs (Format_RFC3339 until) tags (drop i b) []"
    proof (cases "i < length b")
      case True
      then show ?thesis using False scan_drop [OF True] by (simp add: Next_at)
    next
      case ge: False
      then have "drop i b = []" by simp
      then show ?thesis using False ge by (simp add: Next_at scan.simps)
    qed
    show ?thesis
      using False assms(1) p a n by (simp add: GetSessions_def Let_def c1 pr split: sum.splits)
  qed
qed

lemma takeWhile_filter_sorted:
  assumes "sorted_wrt (<) (map fst b)" and "\<And>x y. fst x < fst y \<Longrightarrow> P y \<Longrightarrow> P x"
  shows "takeWhile P b = filter P b"
  using assms(1)
proof (induction b)
  case Nil
  show ?case by simp
next
  case (Cons x xs)
  have s: "sorted_wrt (<) (map fst xs)" and l: "\<forall>y\<in>set xs. fst x < fst y"
    using Cons.prems by auto
  show ?case
  proof (cases "P x")
    case True
    then show ?thesis using Cons.IH [OF s] by simp
  next
    case False
    then have "\<forall>y\<in>set xs. \<not> P y" using l assms(2) by blast
    then have "filter P xs = []" by (simp add: filter_empty_conv)
    then show ?thesis using False by simp
  qed
qed

lemma dropWhile_filter_sorted:
  assumes "sorted_wrt (<) (map fst b)" and "\<And>x y. fst x < fst y \<Longrightarrow> P y \<Longrightarrow> P x"
  shows "dropWhile P b = filter (\<lambda>x. \<not> P x) b"
  using assms(1)
proof (induction b)
  case Nil
  show ?case by simp
next
  case (Cons x xs)
  have s: "sorted_wrt (<) (map fst xs)" and l: "\<forall>y\<in>set xs. fst x < fst y"
    using Cons.prems by auto
  show ?case
  proof (cases "P x")
    case True
    then show ?thesis using Cons.IH [OF s] by simp
  next
    case False
    then have "\<forall>y\<in>set xs. \<not> P y" using l assms(2) by blast
    then have "filter (\<lambda>x. \<not> P x) xs = xs" by (simp add: filter_id_conv)
    then show ?thesis using False by simp
  qed
qed

lemma below_takeWhile:
  "bucket_ok b \<Longrightarrow> takeWhile (\<lambda>kv. fst kv < mn) b = below mn b"
  unfolding bucket_ok_def below_def
  by (rule takeWhile_filter_sorted) auto

lemma drop_below:
  assumes "bucket_ok b"
  shows "drop (length (below mn b)) b = filter (\<lambda>kv. mn \<le> fst kv) b"
proof -
  have "drop (length (takeWhile (\<lambda>kv. fst kv < mn) b)) b = dropWhile (\<lambda>kv. fst kv < mn) b"
    by (simp add: dropWhile_eq_drop)
  also have "\<dots> = filter (\<lambda>x. \<not> fst x < mn) b"
    using assms unfolding bucket_ok_def by (intro dropWhile_filter_sorted) auto
  finally show ?thesis using below_takeWhile [OF assms, of mn] by (simp add: not_less)
qed

lemma bucket_ok_filter: "bucket_ok b \<Longrightarrow> bucket_ok (filter P b)"
  unfolding bucket_ok_def by (induction b) auto

lemma upto_takeWhile:
  assumes "bucket_ok b"
  shows "takeWhile (\<lambda>kv. fst kv \<le> mx) (filter (\<lambda>kv. mn \<le> fst kv) b) = in_range mn mx b"
proof -
  have "bucket_ok (filter (\<lambda>kv. mn \<le> fst kv) b)" using assms by (rule bucket_ok_filter)
  then have "takeWhile (\<lambda>kv. fst kv \<le> mx) (filter (\<lambda>kv. mn \<le> fst kv) b)
               = filter (\<lambda>kv. fst kv \<le> mx) (filter (\<lambda>kv. mn \<le> fst kv) b)"
    unfolding bucket_ok_def by (intro takeWhile_filter_sorted) auto
  then show ?thesis by (simp add: in_range_def conj_commute)
qed

lemma docs_simps:
  "docs [] = []"
  "docs ((k, Doc x) # b) = x # docs b"
  "docs ((k, Garbage g) # b) = docs b"
  "docs (b @ b') = docs b @ docs b'"
  by (simp_all add: docs_def List.map_filter_def)

lemma all_docs_simps:
  "all_docs []"
  "all_docs (kv # b) \<longleftrightarrow> (\<exists>x. snd kv = Doc x) \<and> all_docs b"
  by (auto simp: all_docs_def split: stored.splits)

lemma all_docs_filter: "all_docs b \<Longrightarrow> all_docs (filter P b)"
  by (simp add: all_docs_def list_all_iff)

lemma all_docs_takeWhile: "all_docs b \<Longrightarrow> all_docs (takeWhile P b)"
  unfolding all_docs_def list_all_iff by (meson set_takeWhileD)

lemma all_docs_in: "all_docs b \<Longrightarrow> (k, v) \<in> set b \<Longrightarrow> \<exists>x. v = Doc x"
  by (cases v) (auto simp: all_docs_def list_all_iff split: stored.splits)

lemma scan_pairs_docs:
  "all_docs xs \<Longrightarrow>
     scan_pairs mx tags xs result =
       (result @ concat (map (emit tags) (docs (takeWhile (\<lambda>kv. fst kv \<le> mx) xs))), None)"
proof (induction xs arbitrary: result)
  case Nil
  show ?case by (simp add: docs_simps)
next
  case (Cons kv xs)
  obtain k x where kv: "kv = (k, Doc x)" using Cons.prems by (cases kv) (auto simp: all_docs_simps)
  have a: "all_docs xs" using Cons.prems by (simp add: all_docs_simps)
  show ?case
    by (simp add: kv Cons.IH [OF a] json_Unmarshal_def docs_simps emit_def append_per_tag_replicate)
qed

lemma scan_pairs_Cons_doc:
  "k \<le> mx \<Longrightarrow>
     scan_pairs mx tags ((k, Doc s) # rest) result = scan_pairs mx tags rest (result @ emit tags s)"
  by (simp add: json_Unmarshal_def emit_def append_per_tag_replicate)

lemma GetSessions_sorted:
  fixes b :: "session stored bucket"
  assumes db: "sessions_bucket db = Some b" and ok: "bucket_ok b" and ad: "all_docs b"
    and le: "Format_RFC3339 since \<le> Format_RFC3339 until"
  shows "GetSessions db since until tags =
           Returns (concat (map (emit tags)
                      (docs (edge_pair since b
                             @ in_range (Format_RFC3339 since) (Format_RFC3339 until) b))), None)"
proof -
  let ?mn = "Format_RFC3339 since" and ?mx = "Format_RFC3339 until"
  let ?P = "\<lambda>kv :: bytes \<times> session stored. fst kv < ?mn"
  let ?i = "length (takeWhile ?P b)"
  have tw: "takeWhile ?P b = below ?mn b" by (rule below_takeWhile [OF ok])
  have dr: "drop ?i b = filter (\<lambda>kv. ?mn \<le> fst kv) b"
    using drop_below [OF ok, of ?mn] by (simp add: tw)
  have rest: "scan_pairs ?mx tags (drop ?i b) result
                = (result @ concat (map (emit tags) (docs (in_range ?mn ?mx b))), None)" for result
    unfolding dr using scan_pairs_docs [OF all_docs_filter [OF ad]] upto_takeWhile [OF ok]
    by simp
  show ?thesis
  proof (cases "below ?mn b = []")
    case True
    then have i0: "?i = 0" by (simp add: tw)
    have "edge_pair since b = []" using True by (simp add: edge_pair_def)
    moreover have "scan_pairs ?mx tags b [] = (concat (map (emit tags) (docs (in_range ?mn ?mx b))), None)"
      using rest [of "[]"] i0 by simp
    ultimately show ?thesis
      using GetSessions_unfold [OF db, of since until tags] i0 by simp
  next
    case False
    then have ipos: "?i \<noteq> 0" by (simp add: tw)
    have ilt: "?i - 1 < length (takeWhile ?P b)" using ipos by simp
    have "b ! (?i - 1) = (takeWhile ?P b @ dropWhile ?P b) ! (?i - 1)" by simp
    also have "\<dots> = takeWhile ?P b ! (?i - 1)" using ilt by (simp only: nth_append if_True)
    also have "\<dots> = last (below ?mn b)" using False by (simp add: tw last_conv_nth)
    finally have nth: "b ! (?i - 1) = last (below ?mn b)" .
    obtain pk pv where p: "last (below ?mn b) = (pk, pv)" by (cases "last (below ?mn b)")
    have mem: "(pk, pv) \<in> set (below ?mn b)" using False p by (metis last_in_set)
    then have pk: "pk < ?mn" and inb: "(pk, pv) \<in> set b" by (auto simp: below_def)
    obtain s where pv: "pv = Doc s" using all_docs_in [OF ad inb] by blast
    have rv: "rev (below ?mn b) = (pk, Doc s) # rev (butlast (below ?mn b))"
      using False p pv by (metis append_butlast_last_id rev.simps(2) rev_append rev_rev_ident
          append_Cons append_Nil rev_singleton_conv)
    have edge: "edge_pair since b = (if After (EndTime s) since then [(pk, Doc s)] else [])"
      by (simp add: edge_pair_def rv)
    have lt: "?i - 1 < length b" using ilt length_takeWhile_le [of ?P b] by linarith
    have "drop (?i - 1) b = b ! (?i - 1) # drop (Suc (?i - 1)) b"
      using lt by (simp add: Cons_nth_drop_Suc)
    then have dr1: "drop (?i - 1) b = (pk, Doc s) # drop ?i b"
      using ipos nth p pv by simp
    have incl: "scan_pairs ?mx tags (drop (?i - 1) b) []
                  = (emit tags s @ concat (map (emit tags) (docs (in_range ?mn ?mx b))), None)"
    proof -
      have "pk \<le> ?mx" using pk le by simp
      then show ?thesis
        unfolding dr1 using rest [of "emit tags s"]
        by (subst scan_pairs_Cons_doc) simp_all
    qed
    show ?thesis
      using GetSessions_unfold [OF db, of since until tags] ipos nth p pv incl rest [of "[]"] edge
      by (simp add: json_Unmarshal_def docs_simps)
  qed
qed

lemma scan_v1_drop:
  "i < length b \<Longrightarrow>
     scan_v1 \<lparr>pairs = b, pos = i\<rparr> (Some (b ! i)) mx tags result
       = scan_pairs_v1 mx tags (drop i b) result"
proof (induction "length b - i" arbitrary: i result)
  case 0
  then show ?case by simp
next
  case (Suc n)
  obtain k v where kv: "b ! i = (k, v)" by (cases "b ! i")
  have d: "drop i b = (k, v) # drop (Suc i) b"
    using Suc.prems kv by (metis Cons_nth_drop_Suc)
  show ?case
  proof (cases "Suc i < length b")
    case True
    have n: "n = length b - Suc i" using Suc.hyps(2) by simp
    show ?thesis
      using Suc.hyps(1) [OF n True] True
      by (cases "tags = []") (simp_all add: kv d Next_at Let_def scan_v1.simps split: sum.splits)
  next
    case False
    then have "drop (Suc i) b = []" by simp
    then show ?thesis
      using False by (simp add: kv d Next_at Let_def scan_v1.simps split: sum.splits)
  qed
qed

lemma scan_v1_pair_at:
  "scan_v1 \<lparr>pairs = b, pos = i\<rparr> (pair_at b i) mx tags result
     = scan_pairs_v1 mx tags (drop i b) result"
  by (cases "i < length b") (simp_all add: pair_at_def scan_v1_drop scan_v1.simps)

lemma GetSessions_v1_unfold:
  fixes b :: "session stored bucket" and since :: time
  assumes "sessions_bucket db = Some b"
  defines "i \<equiv> length (takeWhile (\<lambda>kv. fst kv < Format_RFC3339 since) b)"
  shows "GetSessions_v1 db since until tags =
     (if i = 0 then Returns (case scan_pairs_v1 (Format_RFC3339 until) tags b [] of
                               (vs, e) \<Rightarrow> decode_all vs [] e)
      else case json_Unmarshal (snd (b ! (i - 1))) of
             Inl e \<Rightarrow> Returns ([], Some e)
           | Inr s \<Rightarrow>
               if After (EndTime s) since
               then Returns (case scan_pairs_v1 (Format_RFC3339 until) tags (drop (i - 1) b) [] of
                               (vs, e) \<Rightarrow> decode_all vs [] e)
               else Returns (case scan_pairs_v1 (Format_RFC3339 until) tags (drop i b) [] of
                               (vs, e) \<Rightarrow> decode_all vs [] e))"
proof -
  have le: "i \<le> length b" unfolding i_def by (rule length_takeWhile_le)
  have c1: "Seek (Cursor b) (Format_RFC3339 since) = (\<lparr>pairs = b, pos = i\<rparr>, pair_at b i)"
    by (simp add: Seek_def Cursor_def Let_def pair_at_def i_def)
  have c3: "Seek \<lparr>pairs = b, pos = 0\<rparr> (Format_RFC3339 since) = (\<lparr>pairs = b, pos = i\<rparr>, pair_at b i)"
    by (simp add: Seek_def Let_def pair_at_def i_def)
  show ?thesis
  proof (cases "i = 0")
    case True
    have pr: "Prev \<lparr>pairs = b, pos = 0\<rparr> = (\<lparr>pairs = b, pos = 0\<rparr>, None)"
      by (simp add: Prev_def)
    have c1': "Seek (Cursor b) (Format_RFC3339 since) = (\<lparr>pairs = b, pos = 0\<rparr>, pair_at b 0)"
      and c3': "Seek \<lparr>pairs = b, pos = 0\<rparr> (Format_RFC3339 since) = (\<lparr>pairs = b, pos = 0\<rparr>, pair_at b 0)"
      using c1 c3 True by simp_all
    have "scan_v1 \<lparr>pairs = b, pos = 0\<rparr> (pair_at b 0) (Format_RFC3339 until) tags []
            = scan_pairs_v1 (Format_RFC3339 until) tags b []"
      using scan_v1_pair_at [of b 0] by simp
    then show ?thesis
      using True assms(1)
      by (simp add: GetSessions_v1_def Let_def c1' c3' pr split: prod.splits)
  next
    case False
    then have lt: "i - 1 < length b" using le by simp
    obtain pk pv where p: "b ! (i - 1) = (pk, pv)" by (cases "b ! (i - 1)")
    have pr: "Prev \<lparr>pairs = b, pos = i\<rparr> = (\<lparr>pairs = b, pos = i - 1\<rparr>, Some (pk, pv))"
      using False p by (simp add: Prev_def)
    have a: "scan_v1 \<lparr>pairs = b, pos = i - 1\<rparr> (Some (pk, pv)) (Format_RFC3339 until) tags []
            = scan_pairs_v1 (Format_RFC3339 until) tags (drop (i - 1) b) []"
      unfolding p [symmetric] by (rule scan_v1_drop [OF lt])
    have n: "scan_v1 (fst (Next \<lparr>pairs = b, pos = i - 1\<rparr>)) (snd (Next \<lparr>pairs = b, pos = i - 1\<rparr>))
               (Format_RFC3339 until) tags []
            = scan_pairs_v1 (Format_RFC3339 until) tags (drop i b) []"
    proof (cases "i < length b")
      case True
      then show ?thesis using False scan_v1_drop [OF True] by (simp add: Next_at)
    next
      case ge: False
      then have "drop i b = []" by simp
      then show ?thesis using False ge by (simp add: Next_at scan_v1.simps)
    qed
    show ?thesis
      using False assms(1) p a n
      by (simp add: GetSessions_v1_def Let_def c1 pr split: sum.splits prod.splits)
  qed
qed

lemma decode_all_docs:
  "decode_all (map Doc xs) acc e = (acc @ xs, if xs = [] then e else None)"
  by (induction xs arbitrary: acc e) (simp_all add: json_Unmarshal_def)

lemma scan_pairs_v1_docs:
  "all_docs xs \<Longrightarrow>
     scan_pairs_v1 mx tags xs (map Doc acc) =
       (map Doc (acc @ concat (map (emit tags) (docs (takeWhile (\<lambda>kv. fst kv \<le> mx) xs)))), None)"
proof (induction xs arbitrary: acc)
  case Nil
  show ?case by (simp add: docs_simps)
next
  case (Cons kv xs)
  obtain k x where kv: "kv = (k, Doc x)" using Cons.prems by (cases kv) (auto simp: all_docs_simps)
  have a: "all_docs xs" using Cons.prems by (simp add: all_docs_simps)
  have e: "(if tags \<noteq> [] then append_per_tag tags (Tags x) (Doc x) (map Doc acc)
            else map Doc acc @ [Doc x]) = map Doc (acc @ emit tags x)"
    by (simp add: emit_def append_per_tag_replicate)
  show ?case
  proof (cases "k \<le> mx")
    case True
    have "scan_pairs_v1 mx tags (kv # xs) (map Doc acc)
            = scan_pairs_v1 mx tags xs (map Doc (acc @ emit tags x))"
      unfolding e [symmetric] using True by (simp add: kv json_Unmarshal_def)
    also have "\<dots> = (map Doc ((acc @ emit tags x)
                 @ concat (map (emit tags) (docs (takeWhile (\<lambda>kv. fst kv \<le> mx) xs)))), None)"
      by (rule Cons.IH [OF a])
    finally show ?thesis using True by (simp add: kv docs_simps)
  next
    case False
    then show ?thesis by (simp add: kv docs_simps)
  qed
qed

lemma scan_pairs_v1_decoded:
  assumes "all_docs xs"
  shows "(case scan_pairs_v1 mx tags xs [] of (vs, e) \<Rightarrow> decode_all vs [] e)
           = scan_pairs mx tags xs []"
  using scan_pairs_v1_docs [OF assms, of mx tags "[]"] scan_pairs_docs [OF assms, of mx tags "[]"]
  by (simp add: decode_all_docs)

lemma all_docs_drop: "all_docs b \<Longrightarrow> all_docs (drop n b)"
  unfolding all_docs_def list_all_iff by (meson in_set_dropD)

lemma GetSessions_v1_eq:
  fixes b :: "session stored bucket"
  assumes "sessions_bucket db = Some b" and "all_docs b"
  shows "GetSessions_v1 db since until tags = GetSessions db since until tags"
  unfolding GetSessions_v1_unfold [OF assms(1)] GetSessions_unfold [OF assms(1)]
    scan_pairs_v1_decoded [OF assms(2)] scan_pairs_v1_decoded [OF all_docs_drop [OF assms(2)]]
  by (rule refl)

text \<open>\<open>getSessions\<close> of \<open>db.go\<close>.\<close>

lemma scan_values_drop:
  "i < length b \<Longrightarrow>
     scan_values \<lparr>pairs = b, pos = i\<rparr> (Some (b ! i)) mx result
       = result @ map snd (takeWhile (\<lambda>kv. fst kv \<le> mx) (drop i b))"
proof (induction "length b - i" arbitrary: i result)
  case 0
  then show ?case by simp
next
  case (Suc n)
  obtain k v where kv: "b ! i = (k, v)" by (cases "b ! i")
  have d: "drop i b = (k, v) # drop (Suc i) b"
    using Suc.prems kv by (metis Cons_nth_drop_Suc)
  show ?case
  proof (cases "Suc i < length b")
    case True
    have n: "n = length b - Suc i" using Suc.hyps(2) by simp
    show ?thesis
      using Suc.hyps(1) [OF n True] True
      by (simp add: kv d Next_at scan_values.simps)
  next
    case False
    then have "drop (Suc i) b = []" by simp
    then show ?thesis
      using False by (simp add: kv d Next_at scan_values.simps)
  qed
qed

lemma getSessions_sorted:
  fixes b :: "session stored bucket"
  assumes db: "sessions_bucket s = Some b" and ok: "bucket_ok b"
  shows "getSessions s startTime endTime =
           Returns (map snd (in_range (Format_RFC3339 startTime) (Format_RFC3339 endTime) b), None)"
proof -
  let ?mn = "Format_RFC3339 startTime" and ?mx = "Format_RFC3339 endTime"
  let ?i = "length (takeWhile (\<lambda>kv :: bytes \<times> session stored. fst kv < ?mn) b)"
  have dr: "drop ?i b = filter (\<lambda>kv. ?mn \<le> fst kv) b"
    using drop_below [OF ok, of ?mn] by (simp add: below_takeWhile [OF ok])
  have sk: "Seek (Cursor b) ?mn = (\<lparr>pairs = b, pos = ?i\<rparr>, pair_at b ?i)"
    by (simp add: Seek_def Cursor_def Let_def pair_at_def)
  have "scan_values \<lparr>pairs = b, pos = ?i\<rparr> (pair_at b ?i) ?mx []
          = map snd (takeWhile (\<lambda>kv. fst kv \<le> ?mx) (drop ?i b))"
  proof (cases "?i < length b")
    case True
    then show ?thesis using scan_values_drop [OF True, of ?mx "[]"] by (simp add: pair_at_def)
  next
    case False
    then show ?thesis by (simp add: pair_at_def scan_values.simps)
  qed
  then show ?thesis
    using db upto_takeWhile [OF ok, of ?mx ?mn] by (simp add: getSessions_def Let_def sk dr)
qed

subsection \<open>The bucket after a sequence of writes\<close>

lemma UpdateSession_ok:
  assumes "sessions_bucket c = Some b"
    and "MarshalJSON_ok (StartTime s) \<and> MarshalJSON_ok (EndTime s)"
  shows "UpdateSession c s =
           Returns (c\<lparr>sessions_bucket :=
             Some (insert_pair (Format_RFC3339 (StartTime s)) (Doc (json_session s)) b)\<rparr>, None)"
  using assms
  by (simp add: UpdateSession_def Update_def Put_def json_Marshal_def Format_RFC3339_not_empty)

lemma UpdateSessions_single: "UpdateSessions c [(StartTime s, s)] = UpdateSession c s"
  by (simp add: UpdateSession_def ToKey_def)

lemma put_all_v2_eq: "put_all_v2 c ss = put_all c ss"
  by (induction ss arbitrary: c)
     (simp_all add: UpdateSessions_single del: UpdateSessions.simps
        split: outcome.splits prod.splits option.splits)

lemma put_all_fold:
  assumes "sessions_bucket c = Some b"
    and "\<forall>s\<in>set ss. MarshalJSON_ok (StartTime s) \<and> MarshalJSON_ok (EndTime s)"
  shows "put_all c ss =
           Returns (c\<lparr>sessions_bucket :=
             Some (fold (\<lambda>s b. insert_pair (Format_RFC3339 (StartTime s)) (Doc (json_session s)) b)
                     ss b)\<rparr>, None)"
  using assms
proof (induction ss arbitrary: c b)
  case Nil
  then show ?case by simp
next
  case (Cons s ss)
  let ?c = "c\<lparr>sessions_bucket :=
              Some (insert_pair (Format_RFC3339 (StartTime s)) (Doc (json_session s)) b)\<rparr>"
  have m: "MarshalJSON_ok (StartTime s) \<and> MarshalJSON_ok (EndTime s)"
    and r: "\<forall>s\<in>set ss. MarshalJSON_ok (StartTime s) \<and> MarshalJSON_ok (EndTime s)"
    using Cons.prems(2) by simp_all
  have "sessions_bucket ?c
          = Some (insert_pair (Format_RFC3339 (StartTime s)) (Doc (json_session s)) b)"
    by simp
  from Cons.IH [OF this r] show ?case
    by (simp add: UpdateSession_ok [OF Cons.prems(1) m])
qed

lemma put_all_empty:
  assumes "\<forall>s\<in>set ss. MarshalJSON_ok (StartTime s) \<and> MarshalJSON_ok (EndTime s)"
  shows "put_all empty_DB ss = Returns (with_sessions (bucket_of ss), None)"
  using put_all_fold [of empty_DB "[]" ss, OF _ assms]
  by (simp add: empty_DB_def with_sessions_def bucket_of_def)

lemma bucket_of_exact:
  assumes "\<forall>s\<in>set ss. stored_exactly s"
  shows "bucket_of ss = fold (\<lambda>s b. insert_pair (Format_RFC3339 (StartTime s)) (Doc s) b) ss []"
  unfolding bucket_of_def
  using assms by (intro fold_cong) (simp_all add: json_session_exact)

lemma all_docs_insert_pair: "all_docs b \<Longrightarrow> all_docs (insert_pair k (Doc x) b)"
  by (induction b) (auto simp: all_docs_simps)

lemma fold_insert_ok:
  "bucket_ok b \<Longrightarrow> all_docs b \<Longrightarrow>
     bucket_ok (fold (\<lambda>s b. insert_pair (key s) (Doc (f s)) b) ss b)
     \<and> all_docs (fold (\<lambda>s b. insert_pair (key s) (Doc (f s)) b) ss b)"
proof (induction ss arbitrary: b)
  case Nil
  then show ?case by simp
next
  case (Cons s ss)
  have "bucket_ok (insert_pair (key s) (Doc (f s)) b)"
    using Cons.prems(1) by (rule bucket_ok_insert_pair)
  moreover have "all_docs (insert_pair (key s) (Doc (f s)) b)"
    using Cons.prems(2) by (rule all_docs_insert_pair)
  ultimately show ?case using Cons.IH by simp
qed

lemma concat_emit_Nil: "concat (map (emit []) xs) = xs"
  by (induction xs) (simp_all add: emit_def)

lemma bucket_ok_distinct: "bucket_ok b \<Longrightarrow> distinct (map fst b)"
  unfolding bucket_ok_def by (simp add: strict_sorted_iff)

lemma bucket_ok_unique:
  assumes "bucket_ok b" and "(k, v) \<in> set b" and "(k, v') \<in> set b"
  shows "v = v'"
  using assms bucket_ok_distinct [OF assms(1)] by (meson eq_key_imp_eq_value)

lemma bucket_ok_last:
  "bucket_ok b \<Longrightarrow> kv \<in> set b \<Longrightarrow> fst kv \<le> fst (last b)"
  unfolding bucket_ok_def
proof (induction b)
  case Nil
  then show ?case by simp
next
  case (Cons x xs)
  show ?case
  proof (cases "xs = []")
    case True
    then show ?thesis using Cons.prems by simp
  next
    case False
    then have l: "last xs \<in> set xs" by simp
    have s: "sorted_wrt (<) (map fst xs)" and lt: "\<forall>y\<in>set xs. fst x < fst y"
      using Cons.prems(1) by auto
    show ?thesis
    proof (cases "kv = x")
      case True
      then show ?thesis using lt l False by (simp add: less_imp_le)
    next
      case ne: False
      then have "kv \<in> set xs" using Cons.prems(2) by simp
      then show ?thesis using Cons.IH [OF s] False by simp
    qed
  qed
qed

lemma edge_pair_greatest:
  assumes ok: "bucket_ok b" and mem: "(k, Doc S) \<in> set b" and lt: "k < Format_RFC3339 since"
    and top: "\<forall>kv\<in>set b. fst kv < Format_RFC3339 since \<longrightarrow> fst kv \<le> k"
  shows "edge_pair since b = (if After (EndTime S) since then [(k, Doc S)] else [])"
proof -
  let ?bl = "below (Format_RFC3339 since) b"
  have m: "(k, Doc S) \<in> set ?bl" using mem lt by (simp add: below_def)
  then have ne: "?bl \<noteq> []" by auto
  have okb: "bucket_ok ?bl" unfolding below_def by (rule bucket_ok_filter [OF ok])
  have "last ?bl \<in> set ?bl" using ne by simp
  then have lb: "last ?bl \<in> set b" "fst (last ?bl) < Format_RFC3339 since"
    by (simp_all add: below_def)
  have "k \<le> fst (last ?bl)" using bucket_ok_last [OF okb m] by simp
  moreover have "fst (last ?bl) \<le> k" using top lb by blast
  ultimately have "fst (last ?bl) = k" by simp
  then have "(k, snd (last ?bl)) \<in> set b" using lb(1) by (metis prod.collapse)
  then have "snd (last ?bl) = Doc S" using bucket_ok_unique [OF ok _ mem] by blast
  then have l: "last ?bl = (k, Doc S)" using \<open>fst (last ?bl) = k\<close> by (metis prod.collapse)
  have "rev ?bl = last ?bl # rev (butlast ?bl)"
    using ne by (metis append_butlast_last_id rev.simps(2) rev_append rev_rev_ident
        append_Cons append_Nil rev_singleton_conv)
  then have r: "rev ?bl = (k, Doc S) # rev (butlast ?bl)" by (simp only: l)
  show ?thesis unfolding edge_pair_def r by simp
qed

lemma not_in_range_below: "k < mn \<Longrightarrow> (k, v) \<notin> set (in_range mn mx b)"
  by (auto simp: in_range_def)

lemma example_keys_base:
  "Format_RFC3339 nine = ''2023-01-05T09:00:00Z''"
  "Format_RFC3339 ten = ''2023-01-05T10:00:00Z''"
  "Format_RFC3339 eleven = ''2023-01-05T11:00:00Z''"
  "Format_RFC3339 (StartTime midday) = ''2023-01-05T10:15:00Z''"
  by code_simp+

lemma Format_RFC3339_nsec: "Format_RFC3339 (t\<lparr>nsec := n\<rparr>) = Format_RFC3339 t"
  by (simp add: Format_RFC3339_def)

lemma example_keys:
  "Format_RFC3339 nine = ''2023-01-05T09:00:00Z''"
  "Format_RFC3339 ten = ''2023-01-05T10:00:00Z''"
  "Format_RFC3339 eleven = ''2023-01-05T11:00:00Z''"
  "Format_RFC3339 (StartTime morning) = ''2023-01-05T09:00:00Z''"
  "Format_RFC3339 (StartTime midday) = ''2023-01-05T10:15:00Z''"
  "Format_RFC3339 (StartTime split_second) = ''2023-01-05T10:00:00Z''"
  "Format_RFC3339 ten_and_9ns = ''2023-01-05T10:00:00Z''"
proof -
  show "Format_RFC3339 nine = ''2023-01-05T09:00:00Z''"
    "Format_RFC3339 ten = ''2023-01-05T10:00:00Z''"
    "Format_RFC3339 eleven = ''2023-01-05T11:00:00Z''"
    "Format_RFC3339 (StartTime midday) = ''2023-01-05T10:15:00Z''"
    by (rule example_keys_base)+
  show "Format_RFC3339 (StartTime morning) = ''2023-01-05T09:00:00Z''"
    using example_keys_base(1) by (simp add: morning_def example_session_def)
  have e: "StartTime split_second = ten\<lparr>nsec := 5\<rparr>" "ten_and_9ns = ten\<lparr>nsec := 9\<rparr>"
    by (simp_all add: ten_def ten_and_9ns_def Date_def split_second_def example_session_def)
  show "Format_RFC3339 (StartTime split_second) = ''2023-01-05T10:00:00Z''"
    "Format_RFC3339 ten_and_9ns = ''2023-01-05T10:00:00Z''"
    unfolding e Format_RFC3339_nsec by (rule example_keys_base(2))+
qed

lemma example_order:
  "''2023-01-05T09:00:00Z'' < ''2023-01-05T10:00:00Z''"
  "''2023-01-05T09:00:00Z'' < ''2023-01-05T10:15:00Z''"
  "''2023-01-05T10:00:00Z'' < ''2023-01-05T10:15:00Z''"
  "''2023-01-05T10:00:00Z'' < ''2023-01-05T11:00:00Z''"
  "''2023-01-05T10:15:00Z'' < ''2023-01-05T11:00:00Z''"
  "''2023-01-05T09:00:00Z'' < ''2023-01-05T11:00:00Z''"
  by code_simp+

lemmas example_defs = nine_def ten_def eleven_def morning_def midday_def split_second_def
  ten_and_9ns_def example_session_def

lemma examples_stored_exactly:
  "stored_exactly morning" "stored_exactly midday" "stored_exactly split_second"
  by (simp_all add: stored_exactly_def MarshalJSON_ok_def go_div_def example_defs Date_def
      json_string_ascii byte_of_def)

text \<open>
  C1 (amended). Let the values of the bucket decode, let the session \<open>S\<close> be stored
  under the greatest key below the key of \<open>since\<close>, and let the key of \<open>since\<close> be not
  above the key of \<open>until\<close>. Then \<open>GetSessions\<close> without tags (in both versions of
  \<open>store.go\<close>) returns \<open>S\<close> first if \<open>S\<close> ended after \<open>since\<close>, and leaves \<open>S\<close> out
  otherwise, whatever \<open>until\<close> is; the rest of the result are the sessions with keys from
  the key of \<open>since\<close> to the key of \<open>until\<close>, in the order of their keys, and the pair
  of \<open>S\<close> is not among them.
\<close>

theorem boundary_session_by_key:
  fixes b :: "session stored bucket"
  assumes "sessions_bucket db = Some b" and "bucket_ok b" and "all_docs b"
    and "(k, Doc S) \<in> set b" and "k < Format_RFC3339 since"
    and "\<forall>kv\<in>set b. fst kv < Format_RFC3339 since \<longrightarrow> fst kv \<le> k"
    and "Format_RFC3339 since \<le> Format_RFC3339 until"
  shows "GetSessions db since until [] =
           Returns ((if After (EndTime S) since then [S] else [])
                    @ docs (in_range (Format_RFC3339 since) (Format_RFC3339 until) b), None)
         \<and> GetSessions_v1 db since until [] = GetSessions db since until []
         \<and> (k, Doc S) \<notin> set (in_range (Format_RFC3339 since) (Format_RFC3339 until) b)"
proof -
  have e: "edge_pair since b = (if After (EndTime S) since then [(k, Doc S)] else [])"
    by (rule edge_pair_greatest [OF assms(2,4,5,6)])
  have "GetSessions db since until [] =
           Returns ((if After (EndTime S) since then [S] else [])
                    @ docs (in_range (Format_RFC3339 since) (Format_RFC3339 until) b), None)"
    unfolding GetSessions_sorted [OF assms(1,2,3,7)] concat_emit_Nil e
    by (simp add: docs_simps)
  then show ?thesis
    using GetSessions_v1_eq [OF assms(1,3)] not_in_range_below [OF assms(5)] by simp
qed

theorem boundary_session_by_key_witness:
  "GetSessions (with_sessions [(''2023-01-05T09:00:00Z'', Doc morning),
                               (''2023-01-05T10:15:00Z'', Doc midday)]) ten eleven []
     = Returns ([morning, midday], None)
   \<and> After (EndTime morning) ten"
proof -
  let ?b = "[(''2023-01-05T09:00:00Z'', Doc morning), (''2023-01-05T10:15:00Z'', Doc midday)]"
  have 1: "sessions_bucket (with_sessions ?b) = Some ?b" by (simp add: with_sessions_def)
  have 2: "bucket_ok ?b" by (simp add: bucket_ok_def example_order)
  have 3: "all_docs ?b" by (simp add: all_docs_simps)
  have 4: "(''2023-01-05T09:00:00Z'', Doc morning) \<in> set ?b" by simp
  have 5: "''2023-01-05T09:00:00Z'' < Format_RFC3339 ten" by (simp add: example_keys example_order)
  have 6: "\<forall>kv\<in>set ?b. fst kv < Format_RFC3339 ten \<longrightarrow> fst kv \<le> ''2023-01-05T09:00:00Z''"
    using example_order(3) by (simp add: example_keys not_less less_imp_le)
  have 7: "Format_RFC3339 ten \<le> Format_RFC3339 eleven"
    by (simp add: example_keys example_order less_imp_le)
  have a: "After (EndTime morning) ten" by (simp add: example_defs time_eval)
  have r: "in_range ''2023-01-05T10:00:00Z'' ''2023-01-05T11:00:00Z'' ?b
             = [(''2023-01-05T10:15:00Z'', Doc midday)]"
    using example_order by (simp add: in_range_def not_le less_imp_le)
  show ?thesis
    using boundary_session_by_key [OF 1 2 3 4 5 6 7] a
    by (simp add: example_keys r docs_simps)
qed

text \<open>
  C1 as stated fails. The session \<open>split_second\<close> starts before \<open>since\<close> (five
  nanoseconds after ten against nine nanoseconds after ten), it is the only session, and
  it ended before \<open>since\<close>; the claim has it left out. Its key is the key of
  \<open>since\<close>, so the scan from that key returns it.
\<close>

theorem boundary_session_counterexample:
  "put_all empty_DB [split_second]
     = Returns (with_sessions [(''2023-01-05T10:00:00Z'', Doc split_second)], None)
   \<and> Before (StartTime split_second) ten_and_9ns
   \<and> \<not> After (EndTime split_second) ten_and_9ns
   \<and> Before ten_and_9ns eleven
   \<and> GetSessions (with_sessions [(''2023-01-05T10:00:00Z'', Doc split_second)]) ten_and_9ns eleven []
       = Returns ([split_second], None)"
proof -
  let ?b = "[(''2023-01-05T10:00:00Z'', Doc split_second)]"
  have p: "put_all empty_DB [split_second] = Returns (with_sessions ?b, None)"
    using put_all_empty [of "[split_second]"] bucket_of_exact [of "[split_second]"]
      examples_stored_exactly(3)
    by (simp add: stored_exactly_def example_keys)
  have t: "Before (StartTime split_second) ten_and_9ns" "\<not> After (EndTime split_second) ten_and_9ns"
    "Before ten_and_9ns eleven"
    by (simp_all add: example_defs time_eval)
  have 1: "sessions_bucket (with_sessions ?b) = Some ?b" by (simp add: with_sessions_def)
  have 2: "bucket_ok ?b" by (simp add: bucket_ok_def)
  have 3: "all_docs ?b" by (simp add: all_docs_simps)
  have 7: "Format_RFC3339 ten_and_9ns \<le> Format_RFC3339 eleven"
    by (simp add: example_keys example_order less_imp_le)
  have g: "GetSessions (with_sessions ?b) ten_and_9ns eleven [] = Returns ([split_second], None)"
    unfolding GetSessions_sorted [OF 1 2 3 7] concat_emit_Nil
    using example_order(4)
    by (simp add: example_keys edge_pair_def below_def in_range_def docs_simps less_imp_le)
  show ?thesis using p t g by simp
qed

lemma set_insert_pair_new:
  "k \<notin> fst ` set b \<Longrightarrow> set (insert_pair k v b) = insert (k, v) (set b)"
  by (induction b) (auto split: if_splits)

lemma fst_set_insert_pair: "fst ` set (insert_pair k v b) = insert k (fst ` set b)"
proof (induction b)
  case Nil
  show ?case by simp
next
  case (Cons p b)
  obtain k' v' where p: "p = (k', v')" by (cases p)
  show ?case using Cons.IH by (auto simp: p)
qed

lemma set_fold_insert:
  assumes "distinct (map key ss)" and "\<forall>s\<in>set ss. key s \<notin> fst ` set b"
  shows "set (fold (\<lambda>s b. insert_pair (key s) (Doc s) b) ss b)
           = set b \<union> (\<lambda>s. (key s, Doc s)) ` set ss"
  using assms
proof (induction ss arbitrary: b)
  case Nil
  show ?case by simp
next
  case (Cons s ss)
  have new: "key s \<notin> fst ` set b" using Cons.prems(2) by simp
  have d: "distinct (map key ss)" and ns: "key s \<notin> key ` set ss" using Cons.prems(1) by auto
  have "\<forall>t\<in>set ss. key t \<noteq> key s" using ns by (metis imageI)
  then have "\<forall>t\<in>set ss. key t \<notin> fst ` set (insert_pair (key s) (Doc s) b)"
    using Cons.prems(2) by (simp add: fst_set_insert_pair)
  from Cons.IH [OF d this] show ?case
    by (simp add: set_insert_pair_new [OF new])
qed

lemma set_bucket_of:
  assumes "distinct (map (\<lambda>s. Format_RFC3339 (StartTime s)) ss)"
    and "\<forall>s\<in>set ss. stored_exactly s"
  shows "set (bucket_of ss) = (\<lambda>s. (Format_RFC3339 (StartTime s), Doc s)) ` set ss"
  unfolding bucket_of_exact [OF assms(2)]
  using set_fold_insert [OF assms(1), of "[]"] by simp

lemma set_docs: "set (docs b) = {x. \<exists>k. (k, Doc x) \<in> set b}"
proof (induction b)
  case Nil
  show ?case by (simp add: docs_simps)
next
  case (Cons p b)
  obtain k v where p: "p = (k, v)" by (cases p)
  show ?case using Cons.IH by (cases v) (auto simp: p docs_simps)
qed

lemma bucket_of_ok: "bucket_ok (bucket_of ss) \<and> all_docs (bucket_of ss)"
  unfolding bucket_of_def
  by (rule fold_insert_ok) (simp_all add: bucket_ok_def all_docs_simps)

lemma in_range_docs_keys:
  assumes "distinct (map (\<lambda>s. Format_RFC3339 (StartTime s)) ss)"
    and "\<forall>s\<in>set ss. stored_exactly s"
  shows "set (docs (in_range mn mx (bucket_of ss)))
           = {s \<in> set ss. mn \<le> Format_RFC3339 (StartTime s) \<and> Format_RFC3339 (StartTime s) \<le> mx}"
  unfolding set_docs in_range_def using set_bucket_of [OF assms] by auto

lemma edge_pair_cases:
  "edge_pair since b = [] \<or>
   (\<exists>k s. edge_pair since b = [(k, Doc s)] \<and> (k, Doc s) \<in> set b \<and> k < Format_RFC3339 since
      \<and> After (EndTime s) since)"
proof (cases "below (Format_RFC3339 since) b = []")
  case True
  then show ?thesis by (simp add: edge_pair_def)
next
  case False
  then obtain kv earlier where r: "rev (below (Format_RFC3339 since) b) = kv # earlier"
    by (cases "rev (below (Format_RFC3339 since) b)") auto
  then have "kv \<in> set (below (Format_RFC3339 since) b)"
    by (metis list.set_intros(1) set_rev)
  then have m: "kv \<in> set b" "fst kv < Format_RFC3339 since" by (simp_all add: below_def)
  obtain k v where kv: "kv = (k, v)" by (cases kv)
  show ?thesis using m by (cases v) (auto simp: edge_pair_def r kv)
qed

lemma map_key_docs:
  "\<forall>kv\<in>set xs. \<exists>s. snd kv = Doc s \<and> fst kv = key s \<Longrightarrow> map key (docs xs) = map fst xs"
proof (induction xs)
  case Nil
  show ?case by (simp add: docs_simps)
next
  case (Cons p xs)
  obtain k s where p: "p = (k, Doc s)" "k = key s" using Cons.prems by (cases p) auto
  show ?case using Cons by (simp add: p docs_simps)
qed

lemma sorted_docs_keys:
  assumes "distinct (map (\<lambda>s. Format_RFC3339 (StartTime s)) ss)"
    and "\<forall>s\<in>set ss. stored_exactly s"
  shows "sorted_wrt (<) (map (\<lambda>s. Format_RFC3339 (StartTime s)) (docs (in_range mn mx (bucket_of ss))))"
proof -
  have "\<forall>kv\<in>set (in_range mn mx (bucket_of ss)).
          \<exists>s. snd kv = Doc s \<and> fst kv = Format_RFC3339 (StartTime s)"
    using set_bucket_of [OF assms] by (auto simp: in_range_def)
  then have "map (\<lambda>s. Format_RFC3339 (StartTime s)) (docs (in_range mn mx (bucket_of ss)))
               = map fst (in_range mn mx (bucket_of ss))"
    by (rule map_key_docs)
  moreover have "bucket_ok (in_range mn mx (bucket_of ss))"
    unfolding in_range_def using bucket_of_ok by (intro bucket_ok_filter) simp
  ultimately show ?thesis by (simp add: bucket_ok_def)
qed

lemma edge_pair_written:
  assumes "distinct (map (\<lambda>s. Format_RFC3339 (StartTime s)) ss)"
    and "\<forall>s\<in>set ss. stored_exactly s"
  shows "edge_pair since (bucket_of ss) = [] \<or>
         (\<exists>s\<in>set ss. edge_pair since (bucket_of ss) = [(Format_RFC3339 (StartTime s), Doc s)]
            \<and> Format_RFC3339 (StartTime s) < Format_RFC3339 since \<and> After (EndTime s) since)"
  using edge_pair_cases [of since "bucket_of ss"] set_bucket_of [OF assms] by auto

text \<open>
  C2 (amended). Take any sequence of \<open>UpdateSession\<close> calls on an empty store (or of
  \<open>UpdateSessions\<close> calls with one session each, in the second \<open>store.go\<close>) whose
  sessions have pairwise distinct keys and are stored as they are: \<open>json.Marshal\<close>
  succeeds for them (years in 0..9999, zone offsets below 24 hours), the zone offsets
  are whole minutes and the tags valid UTF-8. Every call succeeds. For a period whose
  first key is not above its last, \<open>GetSessions\<close> without tags (in both versions of
  \<open>store.go\<close>) returns the sessions written whose key lies in the closed interval of
  the two keys, each once and in the order of their keys; before them it returns the
  session with the greatest key below the interval if that session ended after the
  start of the period. \<open>getSessions\<close> of \<open>db.go\<close> returns the stored values of the
  interval only.
\<close>

theorem range_query_after_puts:
  assumes "distinct (map (\<lambda>s. Format_RFC3339 (StartTime s)) ss)"
    and "\<forall>s\<in>set ss. stored_exactly s"
    and "Format_RFC3339 minTime \<le> Format_RFC3339 maxTime"
  shows "put_all empty_DB ss = Returns (with_sessions (bucket_of ss), None)
    \<and> put_all_v2 empty_DB ss = Returns (with_sessions (bucket_of ss), None)
    \<and> GetSessions (with_sessions (bucket_of ss)) minTime maxTime []
        = Returns (docs (edge_pair minTime (bucket_of ss))
                   @ docs (in_range (Format_RFC3339 minTime) (Format_RFC3339 maxTime) (bucket_of ss)),
                   None)
    \<and> GetSessions_v1 (with_sessions (bucket_of ss)) minTime maxTime []
        = GetSessions (with_sessions (bucket_of ss)) minTime maxTime []
    \<and> getSessions (with_sessions (bucket_of ss)) minTime maxTime
        = Returns (map snd (in_range (Format_RFC3339 minTime) (Format_RFC3339 maxTime) (bucket_of ss)),
                   None)
    \<and> set (docs (in_range (Format_RFC3339 minTime) (Format_RFC3339 maxTime) (bucket_of ss)))
        = {s \<in> set ss. Format_RFC3339 minTime \<le> Format_RFC3339 (StartTime s)
                       \<and> Format_RFC3339 (StartTime s) \<le> Format_RFC3339 maxTime}
    \<and> sorted_wrt (<) (map (\<lambda>s. Format_RFC3339 (StartTime s))
          (docs (in_range (Format_RFC3339 minTime) (Format_RFC3339 maxTime) (bucket_of ss))))
    \<and> (edge_pair minTime (bucket_of ss) = [] \<or>
         (\<exists>s\<in>set ss. edge_pair minTime (bucket_of ss) = [(Format_RFC3339 (StartTime s), Doc s)]
            \<and> Format_RFC3339 (StartTime s) < Format_RFC3339 minTime
            \<and> After (EndTime s) minTime))"
proof -
  let ?db = "with_sessions (bucket_of ss)"
  have m: "\<forall>s\<in>set ss. MarshalJSON_ok (StartTime s) \<and> MarshalJSON_ok (EndTime s)"
    using assms(2) by (simp add: stored_exactly_def)
  have sb: "sessions_bucket ?db = Some (bucket_of ss)" by (simp add: with_sessions_def)
  have ok: "bucket_ok (bucket_of ss)" and ad: "all_docs (bucket_of ss)"
    using bucket_of_ok by simp_all
  have g: "GetSessions ?db minTime maxTime []
        = Returns (docs (edge_pair minTime (bucket_of ss))
                   @ docs (in_range (Format_RFC3339 minTime) (Format_RFC3339 maxTime) (bucket_of ss)),
                   None)"
    unfolding GetSessions_sorted [OF sb ok ad assms(3)] concat_emit_Nil by (simp add: docs_simps)
  have p: "put_all empty_DB ss = Returns (?db, None)"
    using m by (rule put_all_empty)
  then have p2: "put_all_v2 empty_DB ss = Returns (?db, None)"
    by (simp only: put_all_v2_eq)
  show ?thesis
    using p p2 g GetSessions_v1_eq [OF sb ad, of minTime maxTime "[]"]
      getSessions_sorted [OF sb ok, of minTime maxTime]
      in_range_docs_keys [OF assms(1,2)] sorted_docs_keys [OF assms(1,2)]
      edge_pair_written [OF assms(1,2), of minTime]
    by simp
qed

lemma bucket_of_two:
  "bucket_of [morning, midday]
     = [(''2023-01-05T09:00:00Z'', Doc morning), (''2023-01-05T10:15:00Z'', Doc midday)]"
  using example_order(2) examples_stored_exactly
  by (simp add: bucket_of_def example_keys json_session_exact)

theorem range_query_after_puts_witness:
  "put_all empty_DB [morning, midday]
     = Returns (with_sessions [(''2023-01-05T09:00:00Z'', Doc morning),
                               (''2023-01-05T10:15:00Z'', Doc midday)], None)
   \<and> GetSessions (with_sessions [(''2023-01-05T09:00:00Z'', Doc morning),
                                 (''2023-01-05T10:15:00Z'', Doc midday)]) nine eleven []
       = Returns ([morning, midday], None)"
proof -
  have d: "distinct (map (\<lambda>s. Format_RFC3339 (StartTime s)) [morning, midday])"
    by (simp add: example_keys)
  have x: "\<forall>s\<in>set [morning, midday]. stored_exactly s"
    by (simp add: examples_stored_exactly)
  have l: "Format_RFC3339 nine \<le> Format_RFC3339 eleven"
    by (simp add: example_keys example_order less_imp_le)
  have e: "edge_pair nine [(''2023-01-05T09:00:00Z'', Doc morning), (''2023-01-05T10:15:00Z'', Doc midday)] = []"
    using example_order by (simp add: edge_pair_def below_def example_keys not_less less_imp_le)
  have r: "in_range ''2023-01-05T09:00:00Z'' ''2023-01-05T11:00:00Z''
             [(''2023-01-05T09:00:00Z'', Doc morning), (''2023-01-05T10:15:00Z'', Doc midday)]
           = [(''2023-01-05T09:00:00Z'', Doc morning), (''2023-01-05T10:15:00Z'', Doc midday)]"
    using example_order by (simp add: in_range_def less_imp_le)
  show ?thesis
    using range_query_after_puts [OF d x l]
    by (simp add: bucket_of_two example_keys e r docs_simps)
qed

text \<open>
  C2 as stated fails. The session \<open>morning\<close> starts at nine, before the period from ten
  to eleven, and ends at half past ten; \<open>GetSessions\<close> for that period returns it.
\<close>

theorem range_query_counterexample:
  "put_all empty_DB [morning] = Returns (with_sessions [(''2023-01-05T09:00:00Z'', Doc morning)], None)
   \<and> Before (StartTime morning) ten
   \<and> GetSessions (with_sessions [(''2023-01-05T09:00:00Z'', Doc morning)]) ten eleven []
       = Returns ([morning], None)"
proof -
  let ?b = "[(''2023-01-05T09:00:00Z'', Doc morning)]"
  have p: "put_all empty_DB [morning] = Returns (with_sessions ?b, None)"
    using put_all_empty [of "[morning]"] bucket_of_exact [of "[morning]"]
      examples_stored_exactly(1)
    by (simp add: stored_exactly_def example_keys)
  have t: "Before (StartTime morning) ten" "After (EndTime morning) ten"
    by (simp_all add: example_defs time_eval)
  have 1: "sessions_bucket (with_sessions ?b) = Some ?b" by (simp add: with_sessions_def)
  have 2: "bucket_ok ?b" by (simp add: bucket_ok_def)
  have 3: "all_docs ?b" by (simp add: all_docs_simps)
  have 7: "Format_RFC3339 ten \<le> Format_RFC3339 eleven"
    by (simp add: example_keys example_order less_imp_le)
  have g: "GetSessions (with_sessions ?b) ten eleven [] = Returns ([morning], None)"
    unfolding GetSessions_sorted [OF 1 2 3 7] concat_emit_Nil
    using example_order(1) t(2)
    by (simp add: example_keys edge_pair_def below_def in_range_def docs_simps not_le)
  show ?thesis using p t(1) g by simp
qed

text \<open>
  C3 (the code departs from the claim). With a tag filter that is not empty, the loop
  of \<open>GetSessions\<close> (in both versions of \<open>store.go\<close>) appends a session once for
  every tag of the session that the filter contains, without leaving the inner loop
  after the first match. A session is returned exactly when it has a tag of the
  filter, but as many times as it has such tags; with an empty filter every session of
  the window is returned once.
\<close>

theorem tag_filter_appends_per_matching_tag:
  fixes b :: "session stored bucket"
  assumes "sessions_bucket db = Some b" and "bucket_ok b" and "all_docs b"
    and "Format_RFC3339 since \<le> Format_RFC3339 until"
  shows "GetSessions db since until tags =
           Returns (concat (map (emit tags)
                      (docs (edge_pair since b
                             @ in_range (Format_RFC3339 since) (Format_RFC3339 until) b))), None)
         \<and> GetSessions_v1 db since until tags = GetSessions db since until tags
         \<and> emit tags s =
             (if tags \<noteq> [] then replicate (length (filter (\<lambda>t. t \<in> set tags) (Tags s))) s
              else [s])"
  using GetSessions_sorted [OF assms] GetSessions_v1_eq [OF assms(1,3)]
  by (simp add: emit_def)

theorem tag_filter_appends_per_matching_tag_witness:
  "GetSessions (with_sessions [(''2023-01-05T09:00:00Z'', Doc morning)]) nine eleven
       [''deep'', ''work'']
     = Returns ([morning, morning], None)
   \<and> Tags morning = [''deep'', ''work'']"
proof -
  let ?b = "[(''2023-01-05T09:00:00Z'', Doc morning)]"
  have 1: "sessions_bucket (with_sessions ?b) = Some ?b" by (simp add: with_sessions_def)
  have 2: "bucket_ok ?b" by (simp add: bucket_ok_def)
  have 3: "all_docs ?b" by (simp add: all_docs_simps)
  have 7: "Format_RFC3339 nine \<le> Format_RFC3339 eleven"
    by (simp add: example_keys example_order less_imp_le)
  have e: "edge_pair nine ?b = []"
    by (simp add: edge_pair_def below_def example_keys)
  have r: "in_range ''2023-01-05T09:00:00Z'' ''2023-01-05T11:00:00Z'' ?b = ?b"
    using example_order(6) by (simp add: in_range_def less_imp_le)
  have t: "Tags morning = [''deep'', ''work'']" by (simp add: example_defs)
  have two: "replicate 2 morning = [morning, morning]" by (simp add: numeral_2_eq_2)
  show ?thesis
    using tag_filter_appends_per_matching_tag [OF 1 2 3 7, of "[''deep'', ''work'']" morning] t
    by (simp add: example_keys e r docs_simps two)
qed

end
